theory Spec2Isabelle
  imports Main "HOL-Library.Word"
begin

section \<open>Detective Quest: rooms, clue ledger and suspect index\<close>

text \<open>
  A shallow embedding of \<^verbatim>\<open>trabalhoDetectiveQuest.c\<close>.

  \<^item> A C string is the list of its bytes before the terminating NUL (\<open>string\<close>); the
    literals of the source are UTF-8, so a letter such as a-tilde is two bytes.
    A \<^verbatim>\<open>char *\<close> that the code tests against \<^verbatim>\<open>NULL\<close> is a \<open>string option\<close>.
  \<^item> The two pointer trees (\<^verbatim>\<open>Room\<close>, \<^verbatim>\<open>ClueNode\<close>) are datatypes whose first
    constructor is the \<^verbatim>\<open>NULL\<close> pointer; every node is owned by one parent, so updating
    a child pointer in place is rebuilding the parent with the new child.
  \<^item> The hash table is the array of its \<^verbatim>\<open>HASH_SIZE\<close> chains, a chain being the list of
    its entries from the head.
  \<^item> Standard input is the list of bytes still to be read, standard output the list of
    messages printed so far, one constructor for each \<^verbatim>\<open>printf\<close> of the source.
  \<^item> \<^verbatim>\<open>malloc\<close> is taken to succeed: the branches that call \<^verbatim>\<open>exit\<close> when it fails
    are not part of the model.
\<close>

subsection \<open>String helpers of the C library\<close>

text \<open>
  \<^verbatim>\<open>strcmp\<close> compares bytes as \<^verbatim>\<open>unsigned char\<close>; only the sign of its result is
  specified. A string that ends first meets its NUL, which is below every byte of a
  string.
\<close>

fun strcmp :: "string \<Rightarrow> string \<Rightarrow> int" where
  "strcmp [] [] = 0"
| "strcmp [] (y # ys) = - 1"
| "strcmp (x # xs) [] = 1"
| "strcmp (x # xs) (y # ys) =
     (if x = y then strcmp xs ys
      else if (of_char x :: nat) < of_char y then - 1 else 1)"

definition strlen :: "string \<Rightarrow> nat" where
  "strlen s = length s"

text \<open>
  \<^verbatim>\<open>fgets(buf, n, stdin)\<close>: at the end of the input it returns \<^verbatim>\<open>NULL\<close>; otherwise it
  stores at most \<open>n - 1\<close> bytes, stopping after a newline. The buffer read as a C
  string ends at the first NUL byte stored.
\<close>

fun read_line :: "nat \<Rightarrow> string \<Rightarrow> string" where
  "read_line 0 s = []"
| "read_line (Suc n) [] = []"
| "read_line (Suc n) (c # cs) =
     (if c = CHR 0x0A then [c] else c # read_line n cs)"

definition fgets :: "nat \<Rightarrow> string \<Rightarrow> (string \<times> string) option" where
  "fgets n inp =
     (if inp = [] then None
      else let got = read_line (n - 1) inp
           in Some (takeWhile (\<lambda>c. c \<noteq> CHR 0x00) got, drop (length got) inp))"

definition HASH_SIZE :: nat where
  "HASH_SIZE = 101"

definition MAX_INPUT :: nat where
  "MAX_INPUT = 256"

subsection \<open>Structures\<close>

datatype Room = NoRoom | Room string Room Room

datatype ClueNode = NoClue | ClueNode string ClueNode ClueNode

record HashEntry =
  key :: string
  suspect :: string

type_synonym hash_table = "HashEntry list list"

subsection \<open>Auxiliary functions\<close>

definition trim_newline :: "string \<Rightarrow> string" where
  "trim_newline s =
     (let L = strlen s
      in if L > 0 \<and> s ! (L - 1) = CHR 0x0A then take (L - 1) s else s)"

subsection \<open>The clue ledger\<close>

fun inserirPista :: "ClueNode \<Rightarrow> string option \<Rightarrow> ClueNode" where
  "inserirPista root None = root"
| "inserirPista NoClue (Some clue) = ClueNode clue NoClue NoClue"
| "inserirPista (ClueNode k l r) (Some clue) =
     (let cmp = strcmp clue k
      in if cmp = 0 then ClueNode k l r
         else if cmp < 0 then ClueNode k (inserirPista l (Some clue)) r
         else ClueNode k l (inserirPista r (Some clue)))"

subsection \<open>The suspect index\<close>

text \<open>
  \<^verbatim>\<open>hash_func\<close>: the accumulator is an \<^verbatim>\<open>unsigned long\<close>, taken here as 64 bits wide
  (the LP64 data model); additions and the shift wrap around. The properties proved of the
  table use of the hash only that it is below \<^verbatim>\<open>HASH_SIZE\<close>.
\<close>

fun hash_loop :: "64 word \<Rightarrow> string \<Rightarrow> 64 word" where
  "hash_loop h [] = h"
| "hash_loop h (c # s) = hash_loop ((push_bit 5 h + h) + of_nat (of_char c)) s"

definition hash_func :: "string \<Rightarrow> nat" where
  "hash_func s = unat (ucast (hash_loop 5381 s mod of_nat HASH_SIZE) :: 32 word)"

text \<open>
  The scan of a chain in \<^verbatim>\<open>inserirNaHash\<close>: the first entry whose key equals \<open>pista\<close>
  gets the new suspect; \<open>None\<close> when the scan reaches the end of the chain.
\<close>

fun replace_in_chain :: "HashEntry list \<Rightarrow> string \<Rightarrow> string \<Rightarrow> HashEntry list option" where
  "replace_in_chain [] pista suspeito = None"
| "replace_in_chain (cur # rest) pista suspeito =
     (if strcmp (key cur) pista = 0 then Some (cur\<lparr>suspect := suspeito\<rparr> # rest)
      else map_option ((#) cur) (replace_in_chain rest pista suspeito))"

fun inserirNaHash :: "hash_table \<Rightarrow> string option \<Rightarrow> string option \<Rightarrow> hash_table" where
  "inserirNaHash table (Some pista) (Some suspeito) =
     (let idx = hash_func pista
      in case replace_in_chain (table ! idx) pista suspeito of
           Some chain \<Rightarrow> table[idx := chain]
         | None \<Rightarrow> table[idx := \<lparr>key = pista, suspect = suspeito\<rparr> # table ! idx])"
| "inserirNaHash table pista suspeito = table"

fun find_in_chain :: "HashEntry list \<Rightarrow> string \<Rightarrow> string option" where
  "find_in_chain [] pista = None"
| "find_in_chain (cur # rest) pista =
     (if strcmp (key cur) pista = 0 then Some (suspect cur) else find_in_chain rest pista)"

fun encontrarSuspeito :: "hash_table \<Rightarrow> string option \<Rightarrow> string option" where
  "encontrarSuspeito table None = None"
| "encontrarSuspeito table (Some pista) = find_in_chain (table ! hash_func pista) pista"

text \<open>
  The tally is a C \<^verbatim>\<open>int\<close>; it is at most the number of nodes of the ledger
  (\<open>count_clues_for_suspect_bounds\<close> below), so it is modelled by an unbounded integer.
\<close>

fun count_clues_for_suspect :: "ClueNode \<Rightarrow> hash_table \<Rightarrow> string \<Rightarrow> int" where
  "count_clues_for_suspect NoClue table suspect' = 0"
| "count_clues_for_suspect (ClueNode clue l r) table suspect' =
     (let cnt = 0;
          cnt = cnt + count_clues_for_suspect l table suspect';
          s = encontrarSuspeito table (Some clue);
          cnt = (if s \<noteq> None \<and> strcmp (the s) suspect' = 0 then cnt + 1 else cnt);
          cnt = cnt + count_clues_for_suspect r table suspect'
      in cnt)"

subsection \<open>Console messages\<close>

datatype msg =
    PistaEncontrada string
  | PistaAdicionada
  | InicioExploracao
  | VoceEstaNaSala string
  | SemPistasNaSala
  | Escolha
  | SemSalaEsquerda
  | SemSalaDireita
  | Saindo
  | OpcaoInvalida
  | FimExploracao
  | ItemPista string
  | NenhumaPistaColetada
  | PistasColetadas
  | DigiteSuspeito
  | NenhumSuspeitoInformado
  | VoceAcusou string
  | PistasQueApontam string int
  | AcusacaoValida
  | AcusacaoFraca
  | Obrigado

text \<open>
  What a run of the program owns: the ledger (\<^verbatim>\<open>collected\<close> of \<^verbatim>\<open>main\<close>), the hash
  table, the rest of standard input and what was printed.
\<close>

record session =
  collected :: ClueNode
  table :: hash_table
  stdin :: string
  stdout :: "msg list"

definition printf :: "msg \<Rightarrow> session \<Rightarrow> session" where
  "printf m s = s\<lparr>stdout := stdout s @ [m]\<rparr>"

subsection \<open>Exploration\<close>

definition adicionarPista :: "string option \<Rightarrow> session \<Rightarrow> session" where
  "adicionarPista clue s =
     (case clue of
        None \<Rightarrow> s
      | Some c \<Rightarrow>
          printf PistaAdicionada
            ((printf (PistaEncontrada c) s)\<lparr>collected := inserirPista (collected s) clue\<rparr>))"

text \<open>The chain of comparisons on the room's name at the head of the loop body.\<close>

definition clue_of_room :: "string \<Rightarrow> string option" where
  "clue_of_room name =
     (if strcmp name ''Entrada'' = 0 then Some ''Pegadas lamacentas''
      else if strcmp name (''Sal'' @ [CHR 0xC3, CHR 0xA3] @ ''o'') = 0 then Some ''Vidro quebrado''
      else if strcmp name ''Cozinha'' = 0
        then Some (''Faca com impress'' @ [CHR 0xC3, CHR 0xB5] @ ''es'')
      else if strcmp name ''Biblioteca'' = 0 then Some ''Livro deslocado''
      else if strcmp name (''Escrit'' @ [CHR 0xC3, CHR 0xB3] @ ''rio'') = 0
        then Some ''Carta rasgada''
      else if strcmp name ''Quarto'' = 0 then Some ''Frascos vazios''
      else if strcmp name ''Varanda'' = 0 then Some ''Fibra vermelha''
      else if strcmp name (''S'' @ [CHR 0xC3, CHR 0xB3] @ ''t'' @ [CHR 0xC3, CHR 0xA3] @ ''o'') = 0
        then Some ''Marcas de arraste''
      else if strcmp name (''Por'' @ [CHR 0xC3, CHR 0xA3] @ ''o'') = 0 then Some ''Pegada pequena''
      else None)"

text \<open>
  One pass through the body of the \<^verbatim>\<open>while (atual)\<close> loop, at a room that is not
  \<^verbatim>\<open>NULL\<close>. The result says how the pass ends: \<open>Continue r\<close> goes back to the loop test
  with \<open>atual = r\<close>, \<open>Break\<close> leaves the loop. The pass is written in two parts:
  \<open>visit_room\<close> is the body up to the prompt (the room's name, its clue, the choice
  message), \<open>navigate\<close> is the body after \<^verbatim>\<open>trim_newline\<close> (the test for an empty
  line and the dispatch on the first byte); \<open>loop_body\<close> joins them around the call of
  \<^verbatim>\<open>fgets\<close>.
\<close>

datatype control = Continue Room | Break

definition visit_room :: "string \<Rightarrow> session \<Rightarrow> session" where
  "visit_room name s =
     (let s1 = printf (VoceEstaNaSala name) s;
          clue = clue_of_room name;
          s2 = (if clue \<noteq> None then adicionarPista clue s1 else printf SemPistasNaSala s1)
      in printf Escolha s2)"

definition navigate :: "Room \<Rightarrow> Room \<Rightarrow> Room \<Rightarrow> string \<Rightarrow> session \<Rightarrow> control \<times> session" where
  "navigate atual l r input s =
     (if strlen input = 0 then (Continue atual, s)
      else let c = hd input
           in if c = CHR ''e'' \<or> c = CHR ''E'' then
                (if l \<noteq> NoRoom then (Continue l, s)
                 else (Continue atual, printf SemSalaEsquerda s))
              else if c = CHR ''d'' \<or> c = CHR ''D'' then
                (if r \<noteq> NoRoom then (Continue r, s)
                 else (Continue atual, printf SemSalaDireita s))
              else if c = CHR ''s'' \<or> c = CHR ''S'' then (Break, printf Saindo s)
              else (Continue atual, printf OpcaoInvalida s))"

definition loop_body :: "string \<Rightarrow> Room \<Rightarrow> Room \<Rightarrow> session \<Rightarrow> control \<times> session" where
  "loop_body name l r s =
     (let s3 = visit_room name s
      in case fgets MAX_INPUT (stdin s3) of
           None \<Rightarrow> (Break, s3)
         | Some (input, rest) \<Rightarrow>
             navigate (Room name l r) l r (trim_newline input) (s3\<lparr>stdin := rest\<rparr>))"

text \<open>
  The loop \<^verbatim>\<open>while (atual) { ... }\<close>. Every pass that goes back to the loop test has read
  at least one byte, so on an input that ends the loop ends.
\<close>

function explorar_loop :: "Room \<Rightarrow> session \<Rightarrow> session" where
  "explorar_loop NoRoom s = s"
| "explorar_loop (Room name l r) s =
     (case loop_body name l r s of
        (Break, s') \<Rightarrow> s'
      | (Continue atual, s') \<Rightarrow> explorar_loop atual s')"
  by pat_completeness auto
termination
proof (relation "measure (\<lambda>(atual, s). length (stdin s))")
  show "wf (measure (\<lambda>(atual, s). length (stdin s)))"
    by simp
next
  fix name l r s x1 s' atual
  assume body: "(x1, s') = loop_body name l r s" and c: "x1 = Continue atual"
  have visit: "stdin (visit_room name s) = stdin s"
    by (simp add: visit_room_def adicionarPista_def printf_def Let_def split: option.splits)
  have nav: "stdin (snd (navigate a l r i t)) = stdin t" for a i t
    by (simp add: navigate_def printf_def Let_def)
  have got: "read_line (MAX_INPUT - 1) inp \<noteq> []" if "inp \<noteq> []" for inp
    using that by (cases inp) (simp_all add: MAX_INPUT_def numeral_eq_Suc)
  have reads: "length rest < length inp" if "fgets MAX_INPUT inp = Some (i, rest)" for inp i rest
    using that got [of inp] by (auto simp: fgets_def Let_def split: if_splits)
  from body c obtain i rest where
    f: "fgets MAX_INPUT (stdin (visit_room name s)) = Some (i, rest)" and
    n: "navigate (Room name l r) l r (trim_newline i) ((visit_room name s)\<lparr>stdin := rest\<rparr>)
          = (Continue atual, s')"
    by (auto simp: loop_body_def Let_def split: option.splits)
  from n have "stdin s' = rest"
    using nav [of "Room name l r" "trim_newline i" "(visit_room name s)\<lparr>stdin := rest\<rparr>"]
    by simp
  with reads [OF f] visit show "((atual, s'), (Room name l r, s)) \<in> measure (\<lambda>(atual, s). length (stdin s))"
    by simp
qed

definition explorarSalas :: "Room \<Rightarrow> session \<Rightarrow> session" where
  "explorarSalas root s = printf FimExploracao (explorar_loop root (printf InicioExploracao s))"

subsection \<open>Judgement\<close>

fun listarPistas :: "ClueNode \<Rightarrow> session \<Rightarrow> session" where
  "listarPistas NoClue s = s"
| "listarPistas (ClueNode clue l r) s =
     listarPistas r (printf (ItemPista clue) (listarPistas l s))"

definition verificarSuspeitoFinal :: "session \<Rightarrow> session" where
  "verificarSuspeitoFinal s =
     (if collected s = NoClue then printf NenhumaPistaColetada s
      else
        let s1 = listarPistas (collected s) (printf PistasColetadas s);
            s2 = printf DigiteSuspeito s1
        in case fgets MAX_INPUT (stdin s2) of
             None \<Rightarrow> s2
           | Some (buf, rest) \<Rightarrow>
               let accused = trim_newline buf;
                   s3 = s2\<lparr>stdin := rest\<rparr>
               in if strlen accused = 0 then printf NenhumSuspeitoInformado s3
                  else
                    let count = count_clues_for_suspect (collected s3) (table s3) accused;
                        s4 = printf (PistasQueApontam accused count)
                               (printf (VoceAcusou accused) s3)
                    in if count \<ge> 2 then printf AcusacaoValida s4
                       else printf AcusacaoFraca s4)"

subsection \<open>The scenario and the program\<close>

definition criarSala :: "string \<Rightarrow> Room" where
  "criarSala name = Room name NoRoom NoRoom"

definition construirMansao :: Room where
  "construirMansao =
     (let rSotao = criarSala (''S'' @ [CHR 0xC3, CHR 0xB3] @ ''t'' @ [CHR 0xC3, CHR 0xA3] @ ''o'');
          rPorao = criarSala (''Por'' @ [CHR 0xC3, CHR 0xA3] @ ''o'');
          rQuarto = criarSala ''Quarto'';
          rVaranda = criarSala ''Varanda'';
          rBiblioteca = Room ''Biblioteca'' rSotao NoRoom;
          rEscritorio = Room (''Escrit'' @ [CHR 0xC3, CHR 0xB3] @ ''rio'') NoRoom rPorao;
          rSala = Room (''Sal'' @ [CHR 0xC3, CHR 0xA3] @ ''o'') rBiblioteca rEscritorio;
          rCozinha = Room ''Cozinha'' rQuarto rVaranda
      in Room ''Entrada'' rSala rCozinha)"

text \<open>The pairs that \<^verbatim>\<open>popularTabelaHash\<close> inserts, in the order of the source.\<close>

definition associations :: "(string \<times> string) list" where
  "associations =
     [(''Pegadas lamacentas'', ''Sr. Verde''),
      (''Vidro quebrado'', ''Sra. Rosa''),
      (''Faca com impress'' @ [CHR 0xC3, CHR 0xB5] @ ''es'', ''Sr. Preto''),
      (''Livro deslocado'', ''Sra. Rosa''),
      (''Carta rasgada'', ''Sr. Preto''),
      (''Frascos vazios'', ''Dr. Azul''),
      (''Fibra vermelha'', ''Sra. Rosa''),
      (''Marcas de arraste'', ''Sr. Verde''),
      (''Pegada pequena'', ''Sra. Rosa'')]"

text \<open>
  A sequence of calls of \<^verbatim>\<open>inserirNaHash\<close>, and the table after the clearing loop of
  \<^verbatim>\<open>popularTabelaHash\<close>, which stores \<^verbatim>\<open>NULL\<close> in each of the \<^verbatim>\<open>HASH_SIZE\<close> slots.
\<close>

definition insert_all :: "hash_table \<Rightarrow> (string option \<times> string option) list \<Rightarrow> hash_table" where
  "insert_all t calls = foldl (\<lambda>t (pista, suspeito). inserirNaHash t pista suspeito) t calls"

definition cleared_table :: hash_table where
  "cleared_table = replicate HASH_SIZE []"

definition popularTabelaHash :: hash_table where
  "popularTabelaHash =
     insert_all cleared_table (map (\<lambda>(pista, suspeito). (Some pista, Some suspeito)) associations)"

definition main_program :: "string \<Rightarrow> session" where
  "main_program input =
     (let mansao = construirMansao;
          s0 = \<lparr>collected = NoClue, table = popularTabelaHash, stdin = input, stdout = []\<rparr>;
          s1 = explorarSalas mansao s0;
          s2 = verificarSuspeitoFinal s1
      in printf Obrigado s2)"

section \<open>Vocabulary of the properties\<close>

text \<open>The clue texts of a ledger, in the order in which \<^verbatim>\<open>listarPistas\<close> prints them.\<close>

fun inorder :: "ClueNode \<Rightarrow> string list" where
  "inorder NoClue = []"
| "inorder (ClueNode clue l r) = inorder l @ [clue] @ inorder r"

text \<open>
  The search-tree ordering under \<^verbatim>\<open>strcmp\<close>: everything on the left of a node compares
  below its text, everything on the right above it.
\<close>

fun bst :: "ClueNode \<Rightarrow> bool" where
  "bst NoClue = True"
| "bst (ClueNode clue l r) =
     (bst l \<and> bst r \<and> (\<forall>x \<in> set (inorder l). strcmp x clue < 0)
      \<and> (\<forall>x \<in> set (inorder r). strcmp x clue > 0))"

text \<open>
  \<open>grafted t c t'\<close>: the tree \<open>t'\<close> is \<open>t\<close> with one \<^verbatim>\<open>NULL\<close> child replaced by a
  new leaf that carries \<open>c\<close>; every node of \<open>t\<close> is where it was.
\<close>

fun grafted :: "ClueNode \<Rightarrow> string \<Rightarrow> ClueNode \<Rightarrow> bool" where
  "grafted NoClue c t' = (t' = ClueNode c NoClue NoClue)"
| "grafted (ClueNode k l r) c NoClue = False"
| "grafted (ClueNode k l r) c (ClueNode k' l' r') =
     (k' = k \<and> ((grafted l c l' \<and> r' = r) \<or> (l' = l \<and> grafted r c r')))"

text \<open>
  What a sequence of calls of \<^verbatim>\<open>inserirNaHash\<close>, oldest first, associates with the text
  \<open>k\<close>: the suspect of the last call whose key is exactly \<open>k\<close>, calls with a \<^verbatim>\<open>NULL\<close>
  argument being no calls at all.
\<close>

fun latest :: "(string option \<times> string option) list \<Rightarrow> string \<Rightarrow> string option" where
  "latest [] k = None"
| "latest ((pista, suspeito) # calls) k =
     (case latest calls k of
        Some s \<Rightarrow> Some s
      | None \<Rightarrow> (if pista = Some k \<and> suspeito \<noteq> None then suspeito else None))"

text \<open>The number of entries of the whole table, over all chains, whose key is \<open>c\<close>.\<close>

definition entries_for :: "hash_table \<Rightarrow> string \<Rightarrow> nat" where
  "entries_for t c = length (filter (\<lambda>e. key e = c) (concat t))"

text \<open>
  The shape every table of the program has: \<^verbatim>\<open>HASH_SIZE\<close> chains, the keys of a chain
  distinct, and every entry in the chain that its key hashes to.
\<close>

definition table_wf :: "hash_table \<Rightarrow> bool" where
  "table_wf t \<longleftrightarrow>
     length t = HASH_SIZE \<and>
     (\<forall>i < HASH_SIZE. distinct (map key (t ! i)) \<and> (\<forall>e \<in> set (t ! i). hash_func (key e) = i))"

section \<open>The order of \<^verbatim>\<open>strcmp\<close>\<close>

lemma strcmp_eq0_iff: "strcmp a b = 0 \<longleftrightarrow> a = b"
  by (induction a b rule: strcmp.induct) auto

lemma strcmp_pos_iff: "0 < strcmp a b \<longleftrightarrow> strcmp b a < 0"
  by (induction a b rule: strcmp.induct) (auto simp: not_less le_less)

lemma strcmp_irrefl: "\<not> strcmp a a < 0"
  using strcmp_eq0_iff [of a a] by simp

lemma strcmp_asym: "strcmp a b < 0 \<Longrightarrow> \<not> strcmp b a < 0"
  using strcmp_pos_iff [of b a] by simp

lemma strcmp_not_less: "\<not> strcmp a b < 0 \<longleftrightarrow> a = b \<or> strcmp b a < 0"
  using strcmp_pos_iff [of a b] strcmp_eq0_iff [of a b] by auto

lemma strcmp_trans: "strcmp a b < 0 \<Longrightarrow> strcmp b c < 0 \<Longrightarrow> strcmp a c < 0"
proof (induction a b arbitrary: c rule: strcmp.induct)
  case 1
  then show ?case by simp
next
  case (2 y ys)
  then show ?case by (cases c) (auto split: if_splits)
next
  case (3 x xs)
  then show ?case by simp
next
  case (4 x xs y ys)
  then show ?case by (cases c) (auto split: if_splits)
qed

section \<open>The clue ledger is a search tree without duplicates\<close>

lemma set_inorder_inserirPista:
  "set (inorder (inserirPista t (Some c))) = insert c (set (inorder t))"
  by (induction t) (auto simp: Let_def strcmp_eq0_iff)

lemma bst_inserirPista_Some: "bst t \<Longrightarrow> bst (inserirPista t (Some c))"
  by (induction t)
    (auto simp: Let_def set_inorder_inserirPista strcmp_pos_iff strcmp_eq0_iff strcmp_not_less)

lemma bst_inserirPista: "bst t \<Longrightarrow> bst (inserirPista t clue)"
  by (cases clue) (simp_all add: bst_inserirPista_Some)

lemma bst_foldl_inserirPista: "bst t \<Longrightarrow> bst (foldl inserirPista t clues)"
  by (induction clues arbitrary: t) (simp_all add: bst_inserirPista)

lemma bst_increasing: "bst t \<Longrightarrow> sorted_wrt (\<lambda>a b. strcmp a b < 0) (inorder t)"
  by (induction t) (auto simp: sorted_wrt_append strcmp_pos_iff intro: strcmp_trans)

lemma increasing_distinct: "sorted_wrt (\<lambda>a b. strcmp a b < 0) xs \<Longrightarrow> distinct xs"
  by (induction xs) (auto simp: strcmp_irrefl)

lemma increasing_nondecreasing:
  "sorted_wrt (\<lambda>a b. strcmp a b < 0) xs \<Longrightarrow> sorted_wrt (\<lambda>a b. strcmp a b \<le> 0) xs"
  by (erule sorted_wrt_mono_rel [rotated]) simp

text \<open>
  C2. Whatever sequence of clue texts (a \<^verbatim>\<open>NULL\<close> text among them or not) is inserted
  into the empty ledger, the resulting tree has the search-tree ordering under
  \<^verbatim>\<open>strcmp\<close>, no text occurs in two nodes, and the in-order traversal is
  non-decreasing (indeed strictly increasing).
\<close>

theorem ledger_is_search_tree:
  "bst (foldl inserirPista NoClue clues)
   \<and> distinct (inorder (foldl inserirPista NoClue clues))
   \<and> sorted_wrt (\<lambda>a b. strcmp a b \<le> 0) (inorder (foldl inserirPista NoClue clues))
   \<and> sorted_wrt (\<lambda>a b. strcmp a b < 0) (inorder (foldl inserirPista NoClue clues))"
proof -
  have "bst (foldl inserirPista NoClue clues)"
    by (rule bst_foldl_inserirPista) simp
  then show ?thesis
    using bst_increasing increasing_distinct increasing_nondecreasing by blast
qed

theorem ledger_is_search_tree_witness:
  "inorder (foldl inserirPista NoClue
      [Some ''Vidro quebrado'', Some ''Livro deslocado'', None, Some ''Vidro quebrado'',
       Some ''Fibra vermelha''])
     = [''Fibra vermelha'', ''Livro deslocado'', ''Vidro quebrado'']
   \<and> bst (foldl inserirPista NoClue
      [Some ''Vidro quebrado'', Some ''Livro deslocado'', None, Some ''Vidro quebrado'',
       Some ''Fibra vermelha''])
   \<and> distinct (inorder (foldl inserirPista NoClue
      [Some ''Vidro quebrado'', Some ''Livro deslocado'', None, Some ''Vidro quebrado'',
       Some ''Fibra vermelha'']))
   \<and> sorted_wrt (\<lambda>a b. strcmp a b \<le> 0) (inorder (foldl inserirPista NoClue
      [Some ''Vidro quebrado'', Some ''Livro deslocado'', None, Some ''Vidro quebrado'',
       Some ''Fibra vermelha'']))"
  using ledger_is_search_tree
    [of "[Some ''Vidro quebrado'', Some ''Livro deslocado'', None, Some ''Vidro quebrado'',
          Some ''Fibra vermelha'']"]
  by (simp add: Let_def)

section \<open>Insertion into the ledger\<close>

lemma inserirPista_member: "bst t \<Longrightarrow> c \<in> set (inorder t) \<Longrightarrow> inserirPista t (Some c) = t"
  by (induction t) (auto simp: Let_def strcmp_eq0_iff strcmp_pos_iff dest: strcmp_asym)

lemma inserirPista_grafted:
  "c \<notin> set (inorder t) \<Longrightarrow> grafted t c (inserirPista t (Some c))"
  by (induction t) (auto simp: Let_def strcmp_eq0_iff)

lemma grafted_length: "grafted t c t' \<Longrightarrow> length (inorder t') = Suc (length (inorder t))"
  by (induction t c t' rule: grafted.induct) auto

lemma inserirPista_idem: "inserirPista (inserirPista t (Some c)) (Some c) = inserirPista t (Some c)"
  by (induction t) (auto simp: Let_def strcmp_eq0_iff)

lemma length_inorder_inserirPista:
  "length (inorder (inserirPista t clue)) \<le> Suc (length (inorder t))"
proof (cases clue)
  case None
  then show ?thesis by simp
next
  case (Some c)
  show ?thesis unfolding Some
    by (induction t) (auto simp: Let_def)
qed

lemma count_list_distinct: "distinct xs \<Longrightarrow> x \<in> set xs \<Longrightarrow> count_list xs x = 1"
  by (induction xs) auto

lemma inorder_inserirPista:
  "bst t \<Longrightarrow> c \<notin> set (inorder t) \<Longrightarrow>
   inorder (inserirPista t (Some c)) =
     filter (\<lambda>x. strcmp x c < 0) (inorder t) @ [c] @ filter (\<lambda>x. strcmp c x < 0) (inorder t)"
proof (induction t)
  case NoClue
  then show ?case by simp
next
  case (ClueNode k l r)
  show ?case
  proof (cases "strcmp c k < 0")
    case True
    have "\<forall>x\<in>set (inorder r). strcmp c x < 0" "\<forall>x\<in>set (inorder r). \<not> strcmp x c < 0"
      using ClueNode.prems True by (auto simp: strcmp_pos_iff dest: strcmp_trans strcmp_asym)
    then have "filter (\<lambda>x. strcmp c x < 0) (inorder r) = inorder r"
      "filter (\<lambda>x. strcmp x c < 0) (inorder r) = []"
      by (auto simp: filter_empty_conv)
    with True ClueNode show ?thesis
      by (auto simp: Let_def strcmp_eq0_iff dest: strcmp_asym)
  next
    case False
    with ClueNode.prems have gt: "strcmp k c < 0"
      by (auto simp: strcmp_not_less)
    have "\<forall>x\<in>set (inorder l). strcmp x c < 0" "\<forall>x\<in>set (inorder l). \<not> strcmp c x < 0"
      using ClueNode.prems gt by (auto dest: strcmp_trans strcmp_asym)
    then have "filter (\<lambda>x. strcmp x c < 0) (inorder l) = inorder l"
      "filter (\<lambda>x. strcmp c x < 0) (inorder l) = []"
      by (auto simp: filter_empty_conv)
    with False gt ClueNode show ?thesis
      by (auto simp: Let_def strcmp_eq0_iff dest: strcmp_asym)
  qed
qed

text \<open>
  C3. On a ledger (a tree with the search-tree ordering), \<^verbatim>\<open>inserirPista\<close> returns the
  tree itself when a node with an equal text exists. Otherwise the result is the old tree
  with one new leaf: its texts are the old ones and the new one, its in-order traversal
  is the old one with the new text at its sorted place, and it is one longer. Inserting a
  text a second time changes nothing, so the text is in exactly one node, and no insertion
  (also of a \<^verbatim>\<open>NULL\<close> text, which is ignored) lengthens the traversal by more than one.
\<close>

theorem inserirPista_dedup:
  assumes "bst t"
  shows "(c \<in> set (inorder t) \<longrightarrow> inserirPista t (Some c) = t)
    \<and> (c \<notin> set (inorder t) \<longrightarrow>
         set (inorder (inserirPista t (Some c))) = insert c (set (inorder t))
         \<and> grafted t c (inserirPista t (Some c))
         \<and> inorder (inserirPista t (Some c)) =
             filter (\<lambda>x. strcmp x c < 0) (inorder t) @ [c]
               @ filter (\<lambda>x. strcmp c x < 0) (inorder t)
         \<and> length (inorder (inserirPista t (Some c))) = length (inorder t) + 1)
    \<and> bst (inserirPista t (Some c))
    \<and> inserirPista (inserirPista t (Some c)) (Some c) = inserirPista t (Some c)
    \<and> count_list (inorder (inserirPista (inserirPista t (Some c)) (Some c))) c = 1
    \<and> length (inorder (inserirPista t clue)) \<le> length (inorder t) + 1
    \<and> inserirPista t None = t"
proof -
  let ?t' = "inserirPista t (Some c)"
  have b: "bst ?t'"
    using assms by (rule bst_inserirPista_Some)
  have "distinct (inorder ?t')"
    using b bst_increasing increasing_distinct by blast
  moreover have "c \<in> set (inorder ?t')"
    by (simp add: set_inorder_inserirPista)
  ultimately have one: "count_list (inorder ?t') c = 1"
    by (rule count_list_distinct)
  have new: "length (inorder ?t') = length (inorder t) + 1" if "c \<notin> set (inorder t)"
    using grafted_length [OF inserirPista_grafted [OF that]] by simp
  have old: "inserirPista t (Some c) = t" if "c \<in> set (inorder t)"
    using assms that by (rule inserirPista_member)
  have ord: "inorder ?t' = filter (\<lambda>x. strcmp x c < 0) (inorder t) @ [c]
               @ filter (\<lambda>x. strcmp c x < 0) (inorder t)" if "c \<notin> set (inorder t)"
    using assms that by (rule inorder_inserirPista)
  have twice: "count_list (inorder (inserirPista ?t' (Some c))) c = 1"
    using one by (simp only: inserirPista_idem)
  have le: "length (inorder (inserirPista t clue)) \<le> length (inorder t) + 1"
    using length_inorder_inserirPista [of t clue] by simp
  have none: "inserirPista t None = t"
    by simp
  from old new ord b twice le none show ?thesis
    using inserirPista_grafted [of c t] set_inorder_inserirPista [of t c]
      inserirPista_idem [of t c]
    by blast
qed

theorem inserirPista_dedup_witness:
  "bst (ClueNode ''Livro deslocado'' (ClueNode ''Fibra vermelha'' NoClue NoClue)
          (ClueNode ''Vidro quebrado'' NoClue NoClue))
   \<and> ''Carta rasgada'' \<notin> set (inorder
        (ClueNode ''Livro deslocado'' (ClueNode ''Fibra vermelha'' NoClue NoClue)
          (ClueNode ''Vidro quebrado'' NoClue NoClue)))
   \<and> inserirPista
        (ClueNode ''Livro deslocado'' (ClueNode ''Fibra vermelha'' NoClue NoClue)
          (ClueNode ''Vidro quebrado'' NoClue NoClue)) (Some ''Carta rasgada'')
       = ClueNode ''Livro deslocado''
           (ClueNode ''Fibra vermelha'' (ClueNode ''Carta rasgada'' NoClue NoClue) NoClue)
           (ClueNode ''Vidro quebrado'' NoClue NoClue)
   \<and> grafted
        (ClueNode ''Livro deslocado'' (ClueNode ''Fibra vermelha'' NoClue NoClue)
          (ClueNode ''Vidro quebrado'' NoClue NoClue)) ''Carta rasgada''
        (inserirPista
          (ClueNode ''Livro deslocado'' (ClueNode ''Fibra vermelha'' NoClue NoClue)
            (ClueNode ''Vidro quebrado'' NoClue NoClue)) (Some ''Carta rasgada''))
   \<and> ''Vidro quebrado'' \<in> set (inorder
        (ClueNode ''Livro deslocado'' (ClueNode ''Fibra vermelha'' NoClue NoClue)
          (ClueNode ''Vidro quebrado'' NoClue NoClue)))
   \<and> inserirPista
        (ClueNode ''Livro deslocado'' (ClueNode ''Fibra vermelha'' NoClue NoClue)
          (ClueNode ''Vidro quebrado'' NoClue NoClue)) (Some ''Vidro quebrado'')
       = ClueNode ''Livro deslocado'' (ClueNode ''Fibra vermelha'' NoClue NoClue)
          (ClueNode ''Vidro quebrado'' NoClue NoClue)"
proof -
  let ?t = "ClueNode ''Livro deslocado'' (ClueNode ''Fibra vermelha'' NoClue NoClue)
              (ClueNode ''Vidro quebrado'' NoClue NoClue)"
  have b: "bst ?t"
    by simp
  have n: "''Carta rasgada'' \<notin> set (inorder ?t)" and m: "''Vidro quebrado'' \<in> set (inorder ?t)"
    by simp_all
  have v: "inserirPista ?t (Some ''Carta rasgada'')
       = ClueNode ''Livro deslocado''
           (ClueNode ''Fibra vermelha'' (ClueNode ''Carta rasgada'' NoClue NoClue) NoClue)
           (ClueNode ''Vidro quebrado'' NoClue NoClue)"
    by (simp add: Let_def)
  from inserirPista_dedup [OF b, of "''Carta rasgada''"] n
  have g: "grafted ?t ''Carta rasgada'' (inserirPista ?t (Some ''Carta rasgada''))"
    by blast
  from inserirPista_dedup [OF b, of "''Vidro quebrado''"] m
  have u: "inserirPista ?t (Some ''Vidro quebrado'') = ?t"
    by blast
  from b n v g m u show ?thesis
    by blast
qed

section \<open>The suspect index\<close>

lemma hash_func_less: "hash_func s < HASH_SIZE"
  apply (simp add: hash_func_def HASH_SIZE_def unsigned_ucast_eq unat_mod)
  apply (rule le_less_trans [OF take_bit_nat_less_eq_self])
  apply simp
  done

lemma replace_None_iff: "replace_in_chain ch p s = None \<longleftrightarrow> p \<notin> key ` set ch"
  by (induction ch) (auto simp: strcmp_eq0_iff)

lemma replace_keys: "replace_in_chain ch p s = Some ch' \<Longrightarrow> map key ch' = map key ch"
  by (induction ch arbitrary: ch') (auto simp: strcmp_eq0_iff split: if_splits)

lemma replace_find: "replace_in_chain ch p s = Some ch' \<Longrightarrow>
   find_in_chain ch' k = (if k = p then Some s else find_in_chain ch k)"
  by (induction ch arbitrary: ch') (auto simp: strcmp_eq0_iff split: if_splits)

lemma find_None_iff: "find_in_chain ch k = None \<longleftrightarrow> k \<notin> key ` set ch"
  by (induction ch) (auto simp: strcmp_eq0_iff)

lemma length_inserirNaHash: "length (inserirNaHash t p s) = length t"
  by (cases p; cases s) (auto simp: Let_def split: option.splits)

lemma lookup_inserirNaHash:
  assumes "length t = HASH_SIZE"
  shows "encontrarSuspeito (inserirNaHash t (Some p) (Some s)) (Some k) =
           (if k = p then Some s else encontrarSuspeito t (Some k))"
proof (cases "hash_func k = hash_func p")
  case True
  have lt: "hash_func p < length t" using assms hash_func_less by simp
  show ?thesis
  proof (cases "replace_in_chain (t ! hash_func p) p s")
    case None
    with True lt show ?thesis by (auto simp: Let_def strcmp_eq0_iff)
  next
    case (Some ch')
    with True lt replace_find [OF Some, of k] show ?thesis by (auto simp: Let_def)
  qed
next
  case False
  then have "k \<noteq> p" by auto
  with False show ?thesis
    by (auto simp: Let_def split: option.splits)
qed

lemma length_insert_all: "length (insert_all t calls) = length t"
  unfolding insert_all_def
  by (induction calls arbitrary: t) (auto simp: length_inserirNaHash)

lemma insert_all_snoc:
  "insert_all t (calls @ [(p, s)]) = inserirNaHash (insert_all t calls) p s"
  by (simp add: insert_all_def)

lemma latest_snoc:
  "latest (calls @ [(p, s)]) k = (if p = Some k \<and> s \<noteq> None then s else latest calls k)"
  by (induction calls) (auto split: option.splits)

lemma lookup_inserirNaHash_opt:
  assumes "length t = HASH_SIZE"
  shows "encontrarSuspeito (inserirNaHash t p s) (Some k) =
           (if p = Some k \<and> s \<noteq> None then s else encontrarSuspeito t (Some k))"
proof (cases p)
  case None
  then show ?thesis by simp
next
  case p: (Some p')
  show ?thesis
  proof (cases s)
    case None
    then show ?thesis by (simp add: p)
  next
    case (Some s')
    then show ?thesis
      unfolding p Some using lookup_inserirNaHash [OF assms, of p' s' k] by auto
  qed
qed

lemma lookup_insert_all:
  assumes "length t = HASH_SIZE"
  shows "encontrarSuspeito (insert_all t calls) (Some k) =
     (case latest calls k of Some s \<Rightarrow> Some s | None \<Rightarrow> encontrarSuspeito t (Some k))"
proof (induction calls rule: rev_induct)
  case Nil
  then show ?case by (simp add: insert_all_def)
next
  case (snoc c calls)
  obtain p s where c: "c = (p, s)" by (cases c)
  have len: "length (insert_all t calls) = HASH_SIZE"
    using assms by (simp add: length_insert_all)
  show ?case
    unfolding c insert_all_snoc latest_snoc lookup_inserirNaHash_opt [OF len]
    using snoc by (auto split: option.splits)
qed

lemma lookup_cleared: "encontrarSuspeito cleared_table (Some k) = None"
  using hash_func_less [of k] by (simp add: cleared_table_def)

lemma table_wf_cleared: "table_wf cleared_table"
  by (simp add: table_wf_def cleared_table_def)

lemma table_wf_inserirNaHash:
  assumes "table_wf t"
  shows "table_wf (inserirNaHash t p s)"
proof (cases p)
  case None
  then show ?thesis using assms by simp
next
  case p: (Some p')
  show ?thesis
  proof (cases s)
    case None
    then show ?thesis using assms by (simp add: p)
  next
    case s: (Some s')
    have lt: "hash_func p' < HASH_SIZE" by (rule hash_func_less)
    show ?thesis
    proof (cases "replace_in_chain (t ! hash_func p') p' s'")
      case None
      then have "p' \<notin> key ` set (t ! hash_func p')" by (simp add: replace_None_iff)
      with assms lt None show ?thesis
        unfolding p s table_wf_def by (auto simp: Let_def nth_list_update)
    next
      case (Some ch')
      have k: "map key ch' = map key (t ! hash_func p')" by (rule replace_keys [OF Some])
      then have "key ` set ch' = key ` set (t ! hash_func p')"
        by (metis list.set_map)
      moreover have "\<forall>k \<in> key ` set (t ! hash_func p'). hash_func k = hash_func p'"
        using assms lt by (auto simp: table_wf_def)
      ultimately have h: "\<forall>e \<in> set ch'. hash_func (key e) = hash_func p'"
        by blast
      have d: "distinct (map key ch')"
        using assms lt k by (simp add: table_wf_def)
      from assms lt Some h d show ?thesis
        unfolding p s table_wf_def by (auto simp: Let_def nth_list_update)
    qed
  qed
qed

lemma table_wf_insert_all: "table_wf t \<Longrightarrow> table_wf (insert_all t calls)"
  unfolding insert_all_def
  by (induction calls arbitrary: t) (auto simp: table_wf_inserirNaHash)

lemma count_in_distinct_chain:
  "distinct (map key ch) \<Longrightarrow> c \<in> key ` set ch \<Longrightarrow> length (filter (\<lambda>e. key e = c) ch) = 1"
  by (induction ch) (auto simp: filter_empty_conv image_iff)

lemma length_filter_concat:
  "length (filter P (concat xss)) = sum_list (map (\<lambda>xs. length (filter P xs)) xss)"
  by (induction xss) auto

lemma entries_for_bucket:
  assumes "table_wf t"
  shows "entries_for t c = length (filter (\<lambda>e. key e = c) (t ! hash_func c))"
proof -
  let ?f = "\<lambda>ch. length (filter (\<lambda>e. key e = c) ch)"
  let ?i = "hash_func c"
  have i: "?i < length t" using assms hash_func_less [of c] by (simp add: table_wf_def)
  have other: "?f (t ! j) = 0" if "j < length t" "j \<noteq> ?i" for j
    using assms that by (auto simp: table_wf_def filter_empty_conv)
  have z1: "sum_list (map ?f (take ?i t)) = 0"
    using i other by (auto simp: in_set_conv_nth)
  have z2: "sum_list (map ?f (drop (Suc ?i) t)) = 0"
    using i other by (auto simp: in_set_conv_nth)
  have "t = take ?i t @ t ! ?i # drop (Suc ?i) t"
    by (rule id_take_nth_drop [OF i])
  then have "sum_list (map ?f t) = sum_list (map ?f (take ?i t)) + ?f (t ! ?i) + sum_list (map ?f (drop (Suc ?i) t))"
    by (metis (no_types, lifting) add.assoc list.simps(9) map_append sum_list.Cons sum_list_append)
  with z1 z2 show ?thesis
    by (simp add: entries_for_def length_filter_concat)
qed

lemma entries_for_found:
  assumes "table_wf t" "encontrarSuspeito t (Some c) \<noteq> None"
  shows "entries_for t c = 1"
proof -
  have "c \<in> key ` set (t ! hash_func c)" using assms(2) by (simp add: find_None_iff)
  moreover have "distinct (map key (t ! hash_func c))"
    using assms(1) hash_func_less [of c] by (simp add: table_wf_def)
  ultimately show ?thesis
    by (simp add: entries_for_bucket [OF assms(1)] count_in_distinct_chain)
qed

lemma entries_for_absent:
  assumes "table_wf t" "encontrarSuspeito t (Some c) = None"
  shows "entries_for t c = 0"
proof -
  have "c \<notin> key ` set (t ! hash_func c)" using assms(2) by (simp add: find_None_iff)
  then show ?thesis
    by (auto simp: entries_for_bucket [OF assms(1)] filter_empty_conv)
qed

lemma keys_inserirNaHash_found:
  assumes "length t = HASH_SIZE" "encontrarSuspeito t (Some c) \<noteq> None"
  shows "map (map key) (inserirNaHash t (Some c) (Some s)) = map (map key) t"
proof -
  from assms(2) have "c \<in> key ` set (t ! hash_func c)"
    by (simp add: find_None_iff)
  then obtain ch' where r: "replace_in_chain (t ! hash_func c) c s = Some ch'"
    using replace_None_iff [of "t ! hash_func c" c s] by auto
  have "map (map key) (t[hash_func c := ch']) = (map (map key) t)[hash_func c := map key ch']"
    by (rule map_update)
  also have "\<dots> = (map (map key) t)[hash_func c := map (map key) t ! hash_func c]"
    using replace_keys [OF r] assms(1) hash_func_less [of c] by simp
  also have "\<dots> = map (map key) t"
    by (rule list_update_id)
  finally show ?thesis
    using r by (simp add: Let_def)
qed

lemma latest_None_iff: "latest calls k = None \<longleftrightarrow> (\<forall>s. (Some k, Some s) \<notin> set calls)"
  by (induction calls) (auto split: option.splits)

lemma latest_in_calls: "latest calls k = Some s \<Longrightarrow> (Some k, Some s) \<in> set calls"
  by (induction calls) (auto split: option.splits if_splits)

declare inserirNaHash.simps [simp del] encontrarSuspeito.simps [simp del]

lemma popularTabelaHash_calls:
  "popularTabelaHash =
     insert_all cleared_table
       (map (\<lambda>(pista, suspeito). (Some pista, Some suspeito)) associations)"
  by (simp only: popularTabelaHash_def)

text \<open>
  C4. In any table that calls of \<^verbatim>\<open>inserirNaHash\<close> have built from the cleared one,
  associating \<open>c\<close> with \<open>s1\<close> and then with \<open>s2\<close> leaves exactly one entry with key
  \<open>c\<close> in the whole table, a lookup of \<open>c\<close> returns \<open>s2\<close> (so not \<open>s1\<close>, when the
  two differ), and the second call adds no entry: every chain has the keys it had after
  the first call, at which point the table already held exactly one entry with key \<open>c\<close>.
\<close>

theorem last_write_wins:
  "entries_for
     (inserirNaHash (inserirNaHash (insert_all cleared_table calls) (Some c) (Some s1))
        (Some c) (Some s2)) c = 1
   \<and> encontrarSuspeito
       (inserirNaHash (inserirNaHash (insert_all cleared_table calls) (Some c) (Some s1))
          (Some c) (Some s2)) (Some c) = Some s2
   \<and> (s1 \<noteq> s2 \<longrightarrow>
        encontrarSuspeito
          (inserirNaHash (inserirNaHash (insert_all cleared_table calls) (Some c) (Some s1))
             (Some c) (Some s2)) (Some c) \<noteq> Some s1)
   \<and> map (map key)
        (inserirNaHash (inserirNaHash (insert_all cleared_table calls) (Some c) (Some s1))
           (Some c) (Some s2))
       = map (map key) (inserirNaHash (insert_all cleared_table calls) (Some c) (Some s1))
   \<and> entries_for (inserirNaHash (insert_all cleared_table calls) (Some c) (Some s1)) c = 1"
proof -
  let ?t = "insert_all cleared_table calls"
  let ?t1 = "inserirNaHash ?t (Some c) (Some s1)"
  let ?t2 = "inserirNaHash ?t1 (Some c) (Some s2)"
  have wf: "table_wf ?t"
    by (rule table_wf_insert_all [OF table_wf_cleared])
  have wf1: "table_wf ?t1"
    by (rule table_wf_inserirNaHash [OF wf])
  have wf2: "table_wf ?t2"
    by (rule table_wf_inserirNaHash [OF wf1])
  have len: "length ?t = HASH_SIZE"
    using wf by (simp add: table_wf_def)
  have len1: "length ?t1 = HASH_SIZE"
    using wf1 by (simp only: table_wf_def)
  have "encontrarSuspeito ?t1 (Some c) = Some s1"
    by (simp add: lookup_inserirNaHash [OF len])
  then have f1: "encontrarSuspeito ?t1 (Some c) \<noteq> None"
    by simp
  have f2: "encontrarSuspeito ?t2 (Some c) = Some s2"
    by (simp add: lookup_inserirNaHash [OF len1])
  then have "encontrarSuspeito ?t2 (Some c) \<noteq> None"
    by simp
  with wf2 have one: "entries_for ?t2 c = 1"
    by (rule entries_for_found)
  have same: "map (map key) ?t2 = map (map key) ?t1"
    using len1 f1 by (rule keys_inserirNaHash_found)
  from wf1 f1 have one1: "entries_for ?t1 c = 1"
    by (rule entries_for_found)
  from one f2 same one1 show ?thesis
    by simp
qed

theorem last_write_wins_witness:
  "encontrarSuspeito
     (inserirNaHash (inserirNaHash popularTabelaHash (Some ''Carta rasgada'') (Some ''Dr. Azul''))
        (Some ''Carta rasgada'') (Some ''Sr. Verde'')) (Some ''Carta rasgada'') = Some ''Sr. Verde''
   \<and> entries_for
     (inserirNaHash (inserirNaHash popularTabelaHash (Some ''Carta rasgada'') (Some ''Dr. Azul''))
        (Some ''Carta rasgada'') (Some ''Sr. Verde'')) ''Carta rasgada'' = 1
   \<and> ''Dr. Azul'' \<noteq> ''Sr. Verde''
   \<and> encontrarSuspeito
     (inserirNaHash (inserirNaHash popularTabelaHash (Some ''Carta rasgada'') (Some ''Dr. Azul''))
        (Some ''Carta rasgada'') (Some ''Sr. Verde'')) (Some ''Carta rasgada'') \<noteq> Some ''Dr. Azul''"
  using last_write_wins [of "map (\<lambda>(pista, suspeito). (Some pista, Some suspeito)) associations"
      "''Carta rasgada''" "''Dr. Azul''" "''Sr. Verde''"]
  unfolding popularTabelaHash_calls by simp

text \<open>
  C5. In any table that calls of \<^verbatim>\<open>inserirNaHash\<close> have built from the cleared one, a
  lookup of the text \<open>k\<close> returns the suspect of the last call whose key is exactly \<open>k\<close>,
  and \<^verbatim>\<open>NULL\<close> when no call had that key; a suspect it returns was associated with \<open>k\<close>
  itself. Inserting another text \<open>k'\<close>, in particular one that hashes to the chain of
  \<open>k\<close>, leaves the lookup of \<open>k\<close> as it was, and the lookup of \<open>k'\<close> returns the
  suspect just given. A \<^verbatim>\<open>NULL\<close> text is not found.
\<close>

theorem lookup_returns_latest:
  "encontrarSuspeito (insert_all cleared_table calls) (Some k) = latest calls k
   \<and> ((\<forall>s. (Some k, Some s) \<notin> set calls) \<longrightarrow>
        encontrarSuspeito (insert_all cleared_table calls) (Some k) = None)
   \<and> (\<forall>s. encontrarSuspeito (insert_all cleared_table calls) (Some k) = Some s \<longrightarrow>
        (Some k, Some s) \<in> set calls)
   \<and> (hash_func k' = hash_func k \<and> k' \<noteq> k \<longrightarrow>
        encontrarSuspeito (inserirNaHash (insert_all cleared_table calls) (Some k') (Some s'))
          (Some k) = encontrarSuspeito (insert_all cleared_table calls) (Some k)
        \<and> encontrarSuspeito (inserirNaHash (insert_all cleared_table calls) (Some k') (Some s'))
          (Some k') = Some s')
   \<and> (k' \<noteq> k \<longrightarrow>
        encontrarSuspeito (inserirNaHash (insert_all cleared_table calls) (Some k') (Some s'))
          (Some k) = encontrarSuspeito (insert_all cleared_table calls) (Some k))
   \<and> encontrarSuspeito (insert_all cleared_table calls) None = None"
proof -
  let ?t = "insert_all cleared_table calls"
  have len0: "length cleared_table = HASH_SIZE"
    by (simp add: cleared_table_def)
  then have len: "length ?t = HASH_SIZE"
    by (simp add: length_insert_all)
  have l: "encontrarSuspeito ?t (Some k) = latest calls k"
    by (simp add: lookup_insert_all [OF len0] lookup_cleared split: option.splits)
  have own: "encontrarSuspeito (inserirNaHash ?t (Some k') (Some s')) (Some k') = Some s'"
    by (simp add: lookup_inserirNaHash [OF len])
  have other: "encontrarSuspeito (inserirNaHash ?t (Some k') (Some s')) (Some k)
      = encontrarSuspeito ?t (Some k)" if "k' \<noteq> k"
    using that by (simp add: lookup_inserirNaHash [OF len])
  have null: "encontrarSuspeito ?t None = None"
    by (simp add: encontrarSuspeito.simps)
  from l own other null show ?thesis
    using latest_None_iff [of calls k] latest_in_calls [of calls k]
    by simp
qed

theorem lookup_returns_latest_witness:
  "hash_func ''Pegada pequena'' = hash_func ''Carta rasgada''
   \<and> ''Pegada pequena'' \<noteq> ''Carta rasgada''
   \<and> encontrarSuspeito popularTabelaHash (Some ''Carta rasgada'') = Some ''Sr. Preto''
   \<and> encontrarSuspeito popularTabelaHash (Some ''Pegada pequena'') = Some ''Sra. Rosa''
   \<and> encontrarSuspeito popularTabelaHash (Some ''Candelabro'') = None"
proof -
  let ?calls = "map (\<lambda>(pista, suspeito). (Some pista, Some suspeito)) (butlast associations)"
  have h: "hash_func ''Pegada pequena'' = hash_func ''Carta rasgada''"
    by (simp add: hash_func_def HASH_SIZE_def)
  have d: "''Pegada pequena'' \<noteq> ''Carta rasgada''"
    by simp
  have p: "popularTabelaHash =
      inserirNaHash (insert_all cleared_table ?calls) (Some ''Pegada pequena'') (Some ''Sra. Rosa'')"
    by (simp add: popularTabelaHash_def associations_def insert_all_def)
  have "encontrarSuspeito (insert_all cleared_table ?calls) (Some ''Carta rasgada'') = Some ''Sr. Preto''"
    using lookup_returns_latest [of ?calls "''Carta rasgada''"]
    by (simp add: associations_def)
  with h d have c: "encontrarSuspeito popularTabelaHash (Some ''Carta rasgada'') = Some ''Sr. Preto''"
    and r: "encontrarSuspeito popularTabelaHash (Some ''Pegada pequena'') = Some ''Sra. Rosa''"
    using lookup_returns_latest [of ?calls "''Carta rasgada''" "''Pegada pequena''" "''Sra. Rosa''"]
    unfolding p by simp_all
  have n: "encontrarSuspeito popularTabelaHash (Some ''Candelabro'') = None"
    using lookup_returns_latest
      [of "map (\<lambda>(pista, suspeito). (Some pista, Some suspeito)) associations" "''Candelabro''"]
    unfolding popularTabelaHash_calls by (simp add: associations_def)
  from h d c r n show ?thesis
    by blast
qed

section \<open>The judgement\<close>

lemma read_line_Cons:
  "read_line n (c # cs) =
     (if n = 0 then [] else if c = CHR 0x0A then [c] else c # read_line (n - 1) cs)"
  by (cases n) simp_all

lemma count_clues_for_suspect_filter:
  "count_clues_for_suspect root t accused =
     int (length (filter (\<lambda>clue. encontrarSuspeito t (Some clue) = Some accused) (inorder root)))"
  by (induction root) (auto simp: Let_def strcmp_eq0_iff)

lemma count_clues_for_suspect_bounds:
  "0 \<le> count_clues_for_suspect root t accused
   \<and> count_clues_for_suspect root t accused \<le> int (length (inorder root))"
  by (simp add: count_clues_for_suspect_filter)

lemma listarPistas_prints: "listarPistas root s = s\<lparr>stdout := stdout s @ map ItemPista (inorder root)\<rparr>"
  by (induction root arbitrary: s) (simp_all add: printf_def)

lemma verificar_empty:
  "collected s = NoClue \<Longrightarrow> verificarSuspeitoFinal s = s\<lparr>stdout := stdout s @ [NenhumaPistaColetada]\<rparr>"
  by (simp add: verificarSuspeitoFinal_def printf_def)

lemma verificar_eof:
  "collected s \<noteq> NoClue \<Longrightarrow> stdin s = [] \<Longrightarrow>
   verificarSuspeitoFinal s =
     s\<lparr>stdout := stdout s @ [PistasColetadas] @ map ItemPista (inorder (collected s)) @ [DigiteSuspeito]\<rparr>"
  by (simp add: verificarSuspeitoFinal_def printf_def listarPistas_prints fgets_def)

lemma verificar_no_name:
  "collected s \<noteq> NoClue \<Longrightarrow> fgets MAX_INPUT (stdin s) = Some (buf, rest) \<Longrightarrow> trim_newline buf = [] \<Longrightarrow>
   verificarSuspeitoFinal s =
     s\<lparr>stdin := rest, stdout := stdout s @ [PistasColetadas] @ map ItemPista (inorder (collected s))
         @ [DigiteSuspeito, NenhumSuspeitoInformado]\<rparr>"
  by (simp add: verificarSuspeitoFinal_def printf_def listarPistas_prints strlen_def)

lemma verificar_accused:
  "collected s \<noteq> NoClue \<Longrightarrow> fgets MAX_INPUT (stdin s) = Some (buf, rest) \<Longrightarrow> trim_newline buf \<noteq> [] \<Longrightarrow>
   verificarSuspeitoFinal s =
     s\<lparr>stdin := rest, stdout := stdout s @ [PistasColetadas] @ map ItemPista (inorder (collected s))
         @ [DigiteSuspeito, VoceAcusou (trim_newline buf),
            PistasQueApontam (trim_newline buf)
              (count_clues_for_suspect (collected s) (table s) (trim_newline buf)),
            if count_clues_for_suspect (collected s) (table s) (trim_newline buf) \<ge> 2
            then AcusacaoValida else AcusacaoFraca]\<rparr>"
  by (simp add: verificarSuspeitoFinal_def printf_def listarPistas_prints strlen_def Let_def)

lemma verificar_frame:
  "collected (verificarSuspeitoFinal s) = collected s \<and> table (verificarSuspeitoFinal s) = table s"
  by (simp add: verificarSuspeitoFinal_def printf_def listarPistas_prints strlen_def Let_def
      split: option.splits)

lemma lookup_popularTabelaHash:
  "encontrarSuspeito popularTabelaHash (Some k) =
     latest (map (\<lambda>(pista, suspeito). (Some pista, Some suspeito)) associations) k"
proof -
  have "length cleared_table = HASH_SIZE"
    by (simp add: cleared_table_def)
  then show ?thesis
    unfolding popularTabelaHash_calls
    by (simp add: lookup_insert_all lookup_cleared split: option.splits)
qed

lemma all_match_count:
  assumes "distinct xs" "set xs = {a, b, c}" "a \<noteq> b" "a \<noteq> c" "b \<noteq> c" "\<forall>x \<in> set xs. P x"
  shows "length (filter P xs) = 3"
proof -
  have "filter P xs = xs"
    using assms(6) by (simp add: filter_id_conv)
  moreover have "length xs = card (set xs)"
    using assms(1) by (simp add: distinct_card)
  ultimately show ?thesis
    using assms by simp
qed

text \<open>
  C1. The tally of \<^verbatim>\<open>count_clues_for_suspect\<close> is the number of clues of the ledger, in
  the order of the in-order traversal, whose lookup in the table returns a suspect equal,
  byte for byte, to the accused name. When the ledger is not empty and the line read at the
  prompt gives a name that is not empty, \<^verbatim>\<open>verificarSuspeitoFinal\<close> prints the clues,
  the name, the tally and then the valid-accusation sentence if the tally is at least 2 and
  the weak-accusation sentence otherwise. A ledger holding exactly the three texts
  "Vidro quebrado", "Livro deslocado" and "Fibra vermelha", with a table that maps each to
  "Sra. Rosa", gives tally 3 for "Sra. Rosa" and 0 for "Sr. Verde".
\<close>

theorem verdict_counts_matching_clues:
  "count_clues_for_suspect root t accused =
     int (length (filter (\<lambda>clue. encontrarSuspeito t (Some clue) = Some accused) (inorder root)))
   \<and> (collected s \<noteq> NoClue \<and> fgets MAX_INPUT (stdin s) = Some (buf, rest)
        \<and> trim_newline buf = accused \<and> accused \<noteq> [] \<longrightarrow>
        stdout (verificarSuspeitoFinal s) =
          stdout s @ [PistasColetadas] @ map ItemPista (inorder (collected s))
            @ [DigiteSuspeito, VoceAcusou accused,
               PistasQueApontam accused (count_clues_for_suspect (collected s) (table s) accused),
               if count_clues_for_suspect (collected s) (table s) accused \<ge> 2
               then AcusacaoValida else AcusacaoFraca])
   \<and> (distinct (inorder root)
        \<and> set (inorder root) = {''Vidro quebrado'', ''Livro deslocado'', ''Fibra vermelha''}
        \<and> (\<forall>clue \<in> set (inorder root). encontrarSuspeito t (Some clue) = Some ''Sra. Rosa'') \<longrightarrow>
        count_clues_for_suspect root t ''Sra. Rosa'' = 3
        \<and> count_clues_for_suspect root t ''Sr. Verde'' = 0)"
proof (intro conjI impI)
  show "count_clues_for_suspect root t accused =
     int (length (filter (\<lambda>clue. encontrarSuspeito t (Some clue) = Some accused) (inorder root)))"
    by (rule count_clues_for_suspect_filter)
next
  assume "collected s \<noteq> NoClue \<and> fgets MAX_INPUT (stdin s) = Some (buf, rest)
        \<and> trim_newline buf = accused \<and> accused \<noteq> []"
  then show "stdout (verificarSuspeitoFinal s) =
          stdout s @ [PistasColetadas] @ map ItemPista (inorder (collected s))
            @ [DigiteSuspeito, VoceAcusou accused,
               PistasQueApontam accused (count_clues_for_suspect (collected s) (table s) accused),
               if count_clues_for_suspect (collected s) (table s) accused \<ge> 2
               then AcusacaoValida else AcusacaoFraca]"
    using verificar_accused [of s buf rest] by auto
next
  assume a: "distinct (inorder root)
        \<and> set (inorder root) = {''Vidro quebrado'', ''Livro deslocado'', ''Fibra vermelha''}
        \<and> (\<forall>clue \<in> set (inorder root). encontrarSuspeito t (Some clue) = Some ''Sra. Rosa'')"
  have "length (filter (\<lambda>clue. encontrarSuspeito t (Some clue) = Some ''Sra. Rosa'') (inorder root)) = 3"
    by (rule all_match_count [of _ "''Vidro quebrado''" "''Livro deslocado''" "''Fibra vermelha''"])
      (use a in simp_all)
  then show "count_clues_for_suspect root t ''Sra. Rosa'' = 3"
    by (simp add: count_clues_for_suspect_filter)
  have "filter (\<lambda>clue. encontrarSuspeito t (Some clue) = Some ''Sr. Verde'') (inorder root) = []"
    using a by (simp add: filter_empty_conv)
  then show "count_clues_for_suspect root t ''Sr. Verde'' = 0"
    by (simp add: count_clues_for_suspect_filter)
qed

theorem verdict_counts_matching_clues_witness:
  "stdout (verificarSuspeitoFinal
      \<lparr>collected = ClueNode ''Livro deslocado'' (ClueNode ''Fibra vermelha'' NoClue NoClue)
                     (ClueNode ''Vidro quebrado'' NoClue NoClue),
       table = popularTabelaHash, stdin = ''Sra. Rosa'' @ [CHR 0x0A], stdout = []\<rparr>)
     = [PistasColetadas, ItemPista ''Fibra vermelha'', ItemPista ''Livro deslocado'',
        ItemPista ''Vidro quebrado'', DigiteSuspeito, VoceAcusou ''Sra. Rosa'',
        PistasQueApontam ''Sra. Rosa'' 3, AcusacaoValida]
   \<and> stdout (verificarSuspeitoFinal
      \<lparr>collected = ClueNode ''Livro deslocado'' (ClueNode ''Fibra vermelha'' NoClue NoClue)
                     (ClueNode ''Vidro quebrado'' NoClue NoClue),
       table = popularTabelaHash, stdin = ''Sr. Verde'' @ [CHR 0x0A], stdout = []\<rparr>)
     = [PistasColetadas, ItemPista ''Fibra vermelha'', ItemPista ''Livro deslocado'',
        ItemPista ''Vidro quebrado'', DigiteSuspeito, VoceAcusou ''Sr. Verde'',
        PistasQueApontam ''Sr. Verde'' 0, AcusacaoFraca]
   \<and> count_clues_for_suspect
        (ClueNode ''Livro deslocado'' (ClueNode ''Fibra vermelha'' NoClue NoClue)
           (ClueNode ''Vidro quebrado'' NoClue NoClue)) popularTabelaHash ''sra. rosa'' = 0"
proof -
  let ?L = "ClueNode ''Livro deslocado'' (ClueNode ''Fibra vermelha'' NoClue NoClue)
              (ClueNode ''Vidro quebrado'' NoClue NoClue)"
  let ?s = "\<lambda>input. \<lparr>collected = ?L, table = popularTabelaHash, stdin = input, stdout = []\<rparr>"
  have d: "distinct (inorder ?L)"
    and e: "set (inorder ?L) = {''Vidro quebrado'', ''Livro deslocado'', ''Fibra vermelha''}"
    and l: "\<forall>clue \<in> set (inorder ?L). encontrarSuspeito popularTabelaHash (Some clue) = Some ''Sra. Rosa''"
    by (auto simp: lookup_popularTabelaHash associations_def)
  have f: "fgets MAX_INPUT (''Sra. Rosa'' @ [CHR 0x0A]) = Some (''Sra. Rosa'' @ [CHR 0x0A], [])"
    "fgets MAX_INPUT (''Sr. Verde'' @ [CHR 0x0A]) = Some (''Sr. Verde'' @ [CHR 0x0A], [])"
    by (simp_all add: fgets_def MAX_INPUT_def read_line_Cons)
  have t: "trim_newline (''Sra. Rosa'' @ [CHR 0x0A]) = ''Sra. Rosa''"
    "trim_newline (''Sr. Verde'' @ [CHR 0x0A]) = ''Sr. Verde''"
    by (simp_all add: trim_newline_def strlen_def)
  have c: "count_clues_for_suspect ?L popularTabelaHash ''Sra. Rosa'' = 3"
    "count_clues_for_suspect ?L popularTabelaHash ''Sr. Verde'' = 0"
    using verdict_counts_matching_clues [of ?L popularTabelaHash] d e l by blast+
  have r: "stdout (verificarSuspeitoFinal (?s (''Sra. Rosa'' @ [CHR 0x0A])))
     = [PistasColetadas, ItemPista ''Fibra vermelha'', ItemPista ''Livro deslocado'',
        ItemPista ''Vidro quebrado'', DigiteSuspeito, VoceAcusou ''Sra. Rosa'',
        PistasQueApontam ''Sra. Rosa'' 3, AcusacaoValida]"
    using verdict_counts_matching_clues
      [of ?L popularTabelaHash "''Sra. Rosa''" "?s (''Sra. Rosa'' @ [CHR 0x0A])"
          "''Sra. Rosa'' @ [CHR 0x0A]" "[]"] f t c
    by simp
  have v: "stdout (verificarSuspeitoFinal (?s (''Sr. Verde'' @ [CHR 0x0A])))
     = [PistasColetadas, ItemPista ''Fibra vermelha'', ItemPista ''Livro deslocado'',
        ItemPista ''Vidro quebrado'', DigiteSuspeito, VoceAcusou ''Sr. Verde'',
        PistasQueApontam ''Sr. Verde'' 0, AcusacaoFraca]"
    using verdict_counts_matching_clues
      [of ?L popularTabelaHash "''Sr. Verde''" "?s (''Sr. Verde'' @ [CHR 0x0A])"
          "''Sr. Verde'' @ [CHR 0x0A]" "[]"] f t c
    by simp
  have k: "count_clues_for_suspect ?L popularTabelaHash ''sra. rosa'' = 0"
    using verdict_counts_matching_clues [of ?L popularTabelaHash "''sra. rosa''"]
    by (simp add: lookup_popularTabelaHash associations_def)
  from r v k show ?thesis
    by blast
qed

text \<open>
  C6. With an empty ledger \<^verbatim>\<open>verificarSuspeitoFinal\<close> prints the no-clue sentence and
  returns: nothing is read from the input (no name is asked for), and the outcome is the
  same whatever the table and the pending input are, so neither is consulted.
\<close>

theorem empty_ledger_no_evidence:
  assumes "collected s = NoClue"
  shows "verificarSuspeitoFinal s = s\<lparr>stdout := stdout s @ [NenhumaPistaColetada]\<rparr>
    \<and> stdin (verificarSuspeitoFinal s) = stdin s
    \<and> verificarSuspeitoFinal (s\<lparr>table := t', stdin := input'\<rparr>)
        = (verificarSuspeitoFinal s)\<lparr>table := t', stdin := input'\<rparr>"
  using assms by (simp add: verificar_empty)

theorem empty_ledger_no_evidence_witness:
  "collected \<lparr>collected = NoClue, table = popularTabelaHash,
              stdin = ''Sra. Rosa'' @ [CHR 0x0A], stdout = []\<rparr> = NoClue
   \<and> verificarSuspeitoFinal
        \<lparr>collected = NoClue, table = popularTabelaHash,
         stdin = ''Sra. Rosa'' @ [CHR 0x0A], stdout = []\<rparr>
       = \<lparr>collected = NoClue, table = popularTabelaHash,
          stdin = ''Sra. Rosa'' @ [CHR 0x0A], stdout = [NenhumaPistaColetada]\<rparr>"
proof -
  let ?s = "\<lparr>collected = NoClue, table = popularTabelaHash,
             stdin = ''Sra. Rosa'' @ [CHR 0x0A], stdout = []\<rparr>"
  have c: "collected ?s = NoClue"
    by simp
  from empty_ledger_no_evidence [OF c]
  have "verificarSuspeitoFinal ?s = ?s\<lparr>stdout := stdout ?s @ [NenhumaPistaColetada]\<rparr>"
    by (rule conjunct1)
  then have "verificarSuspeitoFinal ?s = \<lparr>collected = NoClue, table = popularTabelaHash,
          stdin = ''Sra. Rosa'' @ [CHR 0x0A], stdout = [NenhumaPistaColetada]\<rparr>"
    by simp
  with c show ?thesis
    by (rule conjI)
qed

text \<open>
  C8. The judgement leaves the ledger and the table as they were; so does the listing of
  the clues that it starts with.
\<close>

theorem verdict_leaves_structures:
  "collected (verificarSuspeitoFinal s) = collected s
   \<and> table (verificarSuspeitoFinal s) = table s
   \<and> collected (listarPistas root s) = collected s
   \<and> table (listarPistas root s) = table s"
  by (simp add: verificar_frame listarPistas_prints)

theorem verdict_leaves_structures_witness:
  "collected (verificarSuspeitoFinal
      \<lparr>collected = ClueNode ''Carta rasgada'' NoClue NoClue, table = popularTabelaHash,
       stdin = ''Sr. Preto'' @ [CHR 0x0A], stdout = []\<rparr>)
     = ClueNode ''Carta rasgada'' NoClue NoClue
   \<and> table (verificarSuspeitoFinal
      \<lparr>collected = ClueNode ''Carta rasgada'' NoClue NoClue, table = popularTabelaHash,
       stdin = ''Sr. Preto'' @ [CHR 0x0A], stdout = []\<rparr>)
     = popularTabelaHash"
  using verdict_leaves_structures
    [of "\<lparr>collected = ClueNode ''Carta rasgada'' NoClue NoClue, table = popularTabelaHash,
          stdin = ''Sr. Preto'' @ [CHR 0x0A], stdout = []\<rparr>"]
  by simp

section \<open>Exploration\<close>

lemma visit_room_eq:
  "visit_room name s =
     s\<lparr>collected := inserirPista (collected s) (clue_of_room name),
       stdout := stdout s @ VoceEstaNaSala name #
         (case clue_of_room name of
            Some c \<Rightarrow> [PistaEncontrada c, PistaAdicionada]
          | None \<Rightarrow> [SemPistasNaSala]) @ [Escolha]\<rparr>"
  by (cases "clue_of_room name") (simp_all add: visit_room_def adicionarPista_def printf_def)

lemma navigate_frame:
  "collected (snd (navigate a l r i t)) = collected t"
  "table (snd (navigate a l r i t)) = table t"
  "stdin (snd (navigate a l r i t)) = stdin t"
  by (simp_all add: navigate_def printf_def Let_def)

lemma trim_newline_Cons:
  "c \<noteq> CHR 0x0A \<Longrightarrow> \<exists>ys. trim_newline (c # xs) = c # ys"
  by (cases xs rule: rev_cases) (auto simp: trim_newline_def strlen_def Let_def nth_append)

lemma fgets_first:
  assumes "c \<noteq> CHR 0x0A" "c \<noteq> CHR 0x00"
  shows "\<exists>ys rest'. fgets MAX_INPUT (c # rest) = Some (ys, rest') \<and> (\<exists>zs. trim_newline ys = c # zs)"
proof -
  have "fgets MAX_INPUT (c # rest) =
      Some (c # takeWhile (\<lambda>c. c \<noteq> CHR 0x00) (read_line 254 rest),
            drop (length (read_line 254 rest)) rest)"
    using assms by (simp add: fgets_def MAX_INPUT_def read_line_Cons)
  with trim_newline_Cons [OF assms(1)] show ?thesis
    by blast
qed

lemma fgets_blank:
  assumes "c = CHR 0x0A \<or> c = CHR 0x00"
  shows "\<exists>ys rest'. fgets MAX_INPUT (c # rest) = Some (ys, rest') \<and> trim_newline ys = []"
  using assms
  by (auto simp: fgets_def MAX_INPUT_def read_line_Cons trim_newline_def strlen_def)

lemma loop_body_eof:
  "stdin s = [] \<Longrightarrow> loop_body name l r s = (Break, visit_room name s)"
  by (simp add: loop_body_def visit_room_eq fgets_def)

lemma loop_body_first:
  assumes "stdin s = c # rest" "c \<noteq> CHR 0x0A" "c \<noteq> CHR 0x00"
  shows "\<exists>zs rest'. loop_body name l r s =
           navigate (Room name l r) l r (c # zs) ((visit_room name s)\<lparr>stdin := rest'\<rparr>)"
proof -
  from fgets_first [OF assms(2,3), of rest] obtain ys rest' zs
    where "fgets MAX_INPUT (c # rest) = Some (ys, rest')" "trim_newline ys = c # zs"
    by blast
  then show ?thesis
    using assms(1) by (auto simp: loop_body_def visit_room_eq)
qed

lemma loop_body_blank:
  assumes "stdin s = c # rest" "c = CHR 0x0A \<or> c = CHR 0x00"
  shows "\<exists>rest'. loop_body name l r s = (Continue (Room name l r), (visit_room name s)\<lparr>stdin := rest'\<rparr>)"
proof -
  from fgets_blank [OF assms(2), of rest] obtain ys rest'
    where "fgets MAX_INPUT (c # rest) = Some (ys, rest')" "trim_newline ys = []"
    by blast
  then show ?thesis
    using assms(1) by (auto simp: loop_body_def visit_room_eq navigate_def strlen_def)
qed

lemma loop_body_frame:
  "collected (snd (loop_body name l r s)) = inserirPista (collected s) (clue_of_room name)"
  "table (snd (loop_body name l r s)) = table s"
proof -
  have "collected (visit_room name s) = inserirPista (collected s) (clue_of_room name)"
    and "table (visit_room name s) = table s"
    by (simp_all add: visit_room_eq)
  then show "collected (snd (loop_body name l r s)) = inserirPista (collected s) (clue_of_room name)"
    and "table (snd (loop_body name l r s)) = table s"
    by (simp_all add: loop_body_def Let_def navigate_frame split: option.splits prod.splits)
qed

lemma explorar_loop_table: "table (explorar_loop room s) = table s"
proof (induction room s rule: explorar_loop.induct)
  case (1 s)
  then show ?case by simp
next
  case (2 name l r s)
  show ?case
  proof (cases "loop_body name l r s")
    case (Pair ctl s')
    have t: "table s' = table s"
      using loop_body_frame(2) [of name l r s] Pair by simp
    show ?thesis
    proof (cases ctl)
      case (Continue atual)
      with 2 [of ctl s' atual] Pair t show ?thesis by simp
    next
      case Break
      with Pair t show ?thesis by simp
    qed
  qed
qed

lemma set_inorder_inserirPista_opt:
  "set (inorder (inserirPista t clue)) = set (inorder t) \<union> set_option clue"
  by (cases clue) (simp_all add: set_inorder_inserirPista)

lemma explorar_loop_collected:
  "set (inorder (collected (explorar_loop room s)))
     \<subseteq> set (inorder (collected s)) \<union> {c. \<exists>name. clue_of_room name = Some c}"
proof (induction room s rule: explorar_loop.induct)
  case (1 s)
  then show ?case by simp
next
  case (2 name l r s)
  show ?case
  proof (cases "loop_body name l r s")
    case (Pair ctl s')
    have c: "set (inorder (collected s')) \<subseteq> set (inorder (collected s)) \<union> {c. \<exists>name. clue_of_room name = Some c}"
      using loop_body_frame(1) [of name l r s] Pair
      by (auto simp: set_inorder_inserirPista_opt)
    show ?thesis
    proof (cases ctl)
      case (Continue atual)
      with 2 [of ctl s' atual] Pair c show ?thesis by auto
    next
      case Break
      with Pair c show ?thesis by simp
    qed
  qed
qed

lemma clue_of_room_indexed:
  "clue_of_room name = Some c \<Longrightarrow> encontrarSuspeito popularTabelaHash (Some c) \<noteq> None"
  by (auto simp: clue_of_room_def lookup_popularTabelaHash associations_def split: if_splits)

lemma clues_of_the_rooms:
  "map clue_of_room
     [''Entrada'', ''Sal'' @ [CHR 0xC3, CHR 0xA3] @ ''o'', ''Cozinha'', ''Biblioteca'',
      ''Escrit'' @ [CHR 0xC3, CHR 0xB3] @ ''rio'', ''Quarto'', ''Varanda'',
      ''S'' @ [CHR 0xC3, CHR 0xB3] @ ''t'' @ [CHR 0xC3, CHR 0xA3] @ ''o'',
      ''Por'' @ [CHR 0xC3, CHR 0xA3] @ ''o'']
   = map (\<lambda>(pista, suspeito). Some pista) associations"
  by (simp add: clue_of_room_def associations_def)

lemma clue_of_room_key: "clue_of_room name = Some c \<Longrightarrow> c \<in> fst ` set associations"
  by (simp add: clue_of_room_def associations_def split: if_splits)

lemma clue_of_room_range:
  "(\<exists>name. clue_of_room name = Some c) \<longleftrightarrow> c \<in> fst ` set associations"
proof
  assume "\<exists>name. clue_of_room name = Some c"
  then show "c \<in> fst ` set associations"
    using clue_of_room_key by blast
next
  assume "c \<in> fst ` set associations"
  then have "Some c \<in> set (map (\<lambda>(pista, suspeito). Some pista) associations)"
    by force
  then show "\<exists>name. clue_of_room name = Some c"
    unfolding clues_of_the_rooms [symmetric] by auto
qed

lemma navigate_stdout: "\<exists>ms. stdout (snd (navigate a l r i t)) = stdout t @ ms"
  by (simp add: navigate_def printf_def Let_def)

lemma loop_body_presents:
  "\<exists>ms. stdout (snd (loop_body name l r s)) = stdout s @ VoceEstaNaSala name # ms"
proof -
  obtain ms0 where v: "stdout (visit_room name s) = stdout s @ VoceEstaNaSala name # ms0"
    by (simp add: visit_room_eq)
  show ?thesis
  proof (cases "fgets MAX_INPUT (stdin (visit_room name s))")
    case None
    then show ?thesis
      using v by (simp add: loop_body_def)
  next
    case (Some p)
    obtain input rest where p: "p = (input, rest)"
      by (cases p)
    obtain ms where "stdout (snd (navigate (Room name l r) l r (trim_newline input)
          ((visit_room name s)\<lparr>stdin := rest\<rparr>))) = stdout ((visit_room name s)\<lparr>stdin := rest\<rparr>) @ ms"
      using navigate_stdout by blast
    then show ?thesis
      using v Some p by (simp add: loop_body_def)
  qed
qed

lemma explorar_loop_unfold:
  "explorar_loop (Room name l r) s =
     (case fst (loop_body name l r s) of
        Break \<Rightarrow> snd (loop_body name l r s)
      | Continue atual \<Rightarrow> explorar_loop atual (snd (loop_body name l r s)))"
  by (cases "loop_body name l r s") (simp split: control.splits)

lemma navigate_control:
  "fst (navigate a l r (c # zs) t) =
     (if c = CHR ''e'' \<or> c = CHR ''E'' then Continue (if l \<noteq> NoRoom then l else a)
      else if c = CHR ''d'' \<or> c = CHR ''D'' then Continue (if r \<noteq> NoRoom then r else a)
      else if c = CHR ''s'' \<or> c = CHR ''S'' then Break
      else Continue a)"
  by (simp add: navigate_def strlen_def)

lemma navigate_no_left:
  "c = CHR ''e'' \<or> c = CHR ''E'' \<Longrightarrow>
   last (stdout (snd (navigate a NoRoom r (c # zs) t))) = SemSalaEsquerda"
  by (simp add: navigate_def strlen_def printf_def)

lemma navigate_no_right:
  "c = CHR ''d'' \<or> c = CHR ''D'' \<Longrightarrow>
   last (stdout (snd (navigate a l NoRoom (c # zs) t))) = SemSalaDireita"
  by (auto simp add: navigate_def strlen_def printf_def)

lemma loop_body_control:
  assumes "stdin s = c # rest"
  shows "fst (loop_body name l r s) =
     (if c = CHR ''e'' \<or> c = CHR ''E'' then Continue (if l \<noteq> NoRoom then l else Room name l r)
      else if c = CHR ''d'' \<or> c = CHR ''D'' then Continue (if r \<noteq> NoRoom then r else Room name l r)
      else if c = CHR ''s'' \<or> c = CHR ''S'' then Break
      else Continue (Room name l r))"
proof (cases "c = CHR 0x0A \<or> c = CHR 0x00")
  case True
  from loop_body_blank [OF assms True, of name l r] obtain rest'
    where b: "loop_body name l r s = (Continue (Room name l r), (visit_room name s)\<lparr>stdin := rest'\<rparr>)"
    by blast
  from True have "c \<noteq> CHR ''e''" "c \<noteq> CHR ''E''" "c \<noteq> CHR ''d''" "c \<noteq> CHR ''D''"
    "c \<noteq> CHR ''s''" "c \<noteq> CHR ''S''"
    by auto
  then show ?thesis
    unfolding b by simp
next
  case False
  then have "c \<noteq> CHR 0x0A" "c \<noteq> CHR 0x00"
    by simp_all
  from loop_body_first [OF assms this, of name l r] obtain zs rest'
    where b: "loop_body name l r s =
           navigate (Room name l r) l r (c # zs) ((visit_room name s)\<lparr>stdin := rest'\<rparr>)"
    by blast
  show ?thesis
    unfolding b by (rule navigate_control)
qed

lemma loop_body_no_left:
  assumes "stdin s = c # rest" "c = CHR ''e'' \<or> c = CHR ''E''"
  shows "last (stdout (snd (loop_body name NoRoom r s))) = SemSalaEsquerda"
proof -
  from assms(2) have "c \<noteq> CHR 0x0A" "c \<noteq> CHR 0x00"
    by auto
  from loop_body_first [OF assms(1) this, of name NoRoom r] obtain zs rest'
    where b: "loop_body name NoRoom r s =
           navigate (Room name NoRoom r) NoRoom r (c # zs) ((visit_room name s)\<lparr>stdin := rest'\<rparr>)"
    by blast
  show ?thesis
    unfolding b using assms(2) by (rule navigate_no_left)
qed

lemma loop_body_no_right:
  assumes "stdin s = c # rest" "c = CHR ''d'' \<or> c = CHR ''D''"
  shows "last (stdout (snd (loop_body name l NoRoom s))) = SemSalaDireita"
proof -
  from assms(2) have "c \<noteq> CHR 0x0A" "c \<noteq> CHR 0x00"
    by auto
  from loop_body_first [OF assms(1) this, of name l NoRoom] obtain zs rest'
    where b: "loop_body name l NoRoom s =
           navigate (Room name l NoRoom) l NoRoom (c # zs) ((visit_room name s)\<lparr>stdin := rest'\<rparr>)"
    by blast
  show ?thesis
    unfolding b using assms(2) by (rule navigate_no_right)
qed

text \<open>
  C7. One pass of the exploration loop at a room, on an input whose first byte is \<open>c\<close>:
  \<open>e\<close> or \<open>E\<close> continues at the left child when there is one and otherwise at the same
  room, after the no-room-on-the-left message; \<open>d\<close> or \<open>D\<close> does the same on the right;
  \<open>s\<close> or \<open>S\<close> leaves the loop; any other first byte (an empty line too) continues at the
  same room. The loop goes on from the room the pass continues at, and every pass starts by
  printing the name of its room.
\<close>

theorem navigation_step:
  assumes "stdin s = c # rest"
  shows "(c = CHR ''e'' \<or> c = CHR ''E'' \<longrightarrow>
          fst (loop_body name l r s) = Continue (if l \<noteq> NoRoom then l else Room name l r))
    \<and> ((c = CHR ''e'' \<or> c = CHR ''E'') \<and> l = NoRoom \<longrightarrow>
          last (stdout (snd (loop_body name l r s))) = SemSalaEsquerda)
    \<and> (c = CHR ''d'' \<or> c = CHR ''D'' \<longrightarrow>
          fst (loop_body name l r s) = Continue (if r \<noteq> NoRoom then r else Room name l r))
    \<and> ((c = CHR ''d'' \<or> c = CHR ''D'') \<and> r = NoRoom \<longrightarrow>
          last (stdout (snd (loop_body name l r s))) = SemSalaDireita)
    \<and> (c = CHR ''s'' \<or> c = CHR ''S'' \<longrightarrow> fst (loop_body name l r s) = Break)
    \<and> (c \<notin> {CHR ''e'', CHR ''E'', CHR ''d'', CHR ''D'', CHR ''s'', CHR ''S''} \<longrightarrow>
          fst (loop_body name l r s) = Continue (Room name l r))
    \<and> explorar_loop (Room name l r) s =
        (case fst (loop_body name l r s) of
           Break \<Rightarrow> snd (loop_body name l r s)
         | Continue atual \<Rightarrow> explorar_loop atual (snd (loop_body name l r s)))
    \<and> (\<exists>ms. stdout (snd (loop_body name l r s)) = stdout s @ VoceEstaNaSala name # ms)"
proof -
  note ctl = loop_body_control [OF assms, of name l r]
  have e: "c = CHR ''e'' \<or> c = CHR ''E'' \<longrightarrow>
          fst (loop_body name l r s) = Continue (if l \<noteq> NoRoom then l else Room name l r)"
    unfolding ctl by simp
  have e0: "(c = CHR ''e'' \<or> c = CHR ''E'') \<and> l = NoRoom \<longrightarrow>
          last (stdout (snd (loop_body name l r s))) = SemSalaEsquerda"
    using loop_body_no_left [OF assms, of name r] by blast
  have d: "c = CHR ''d'' \<or> c = CHR ''D'' \<longrightarrow>
          fst (loop_body name l r s) = Continue (if r \<noteq> NoRoom then r else Room name l r)"
    unfolding ctl by auto
  have d0: "(c = CHR ''d'' \<or> c = CHR ''D'') \<and> r = NoRoom \<longrightarrow>
          last (stdout (snd (loop_body name l r s))) = SemSalaDireita"
    using loop_body_no_right [OF assms, of name l] by blast
  have st: "c = CHR ''s'' \<or> c = CHR ''S'' \<longrightarrow> fst (loop_body name l r s) = Break"
    unfolding ctl by auto
  have ot: "c \<notin> {CHR ''e'', CHR ''E'', CHR ''d'', CHR ''D'', CHR ''s'', CHR ''S''} \<longrightarrow>
          fst (loop_body name l r s) = Continue (Room name l r)"
    unfolding ctl by simp
  from e e0 d d0 st ot explorar_loop_unfold [of name l r s] loop_body_presents [of name l r s]
  show ?thesis
    by (intro conjI)
qed

theorem navigation_step_witness:
  "fst (loop_body ''Quarto'' NoRoom NoRoom
      \<lparr>collected = NoClue, table = popularTabelaHash, stdin = ''e'' @ [CHR 0x0A], stdout = []\<rparr>)
     = Continue (Room ''Quarto'' NoRoom NoRoom)
   \<and> last (stdout (snd (loop_body ''Quarto'' NoRoom NoRoom
      \<lparr>collected = NoClue, table = popularTabelaHash, stdin = ''e'' @ [CHR 0x0A], stdout = []\<rparr>)))
     = SemSalaEsquerda
   \<and> fst (loop_body ''Cozinha'' (Room ''Quarto'' NoRoom NoRoom) (Room ''Varanda'' NoRoom NoRoom)
      \<lparr>collected = NoClue, table = popularTabelaHash, stdin = ''Direita'' @ [CHR 0x0A], stdout = []\<rparr>)
     = Continue (Room ''Varanda'' NoRoom NoRoom)
   \<and> fst (loop_body ''Quarto'' NoRoom NoRoom
      \<lparr>collected = NoClue, table = popularTabelaHash, stdin = ''sair'' @ [CHR 0x0A], stdout = []\<rparr>)
     = Break
   \<and> fst (loop_body ''Quarto'' NoRoom NoRoom
      \<lparr>collected = NoClue, table = popularTabelaHash, stdin = ''x'' @ [CHR 0x0A], stdout = []\<rparr>)
     = Continue (Room ''Quarto'' NoRoom NoRoom)"
  using
    navigation_step [of "\<lparr>collected = NoClue, table = popularTabelaHash,
        stdin = ''e'' @ [CHR 0x0A], stdout = []\<rparr>" "CHR ''e''" "[CHR 0x0A]" "''Quarto''" NoRoom NoRoom]
    navigation_step [of "\<lparr>collected = NoClue, table = popularTabelaHash,
        stdin = ''Direita'' @ [CHR 0x0A], stdout = []\<rparr>" "CHR ''D''" "''ireita'' @ [CHR 0x0A]"
        "''Cozinha''" "Room ''Quarto'' NoRoom NoRoom" "Room ''Varanda'' NoRoom NoRoom"]
    navigation_step [of "\<lparr>collected = NoClue, table = popularTabelaHash,
        stdin = ''sair'' @ [CHR 0x0A], stdout = []\<rparr>" "CHR ''s''" "''air'' @ [CHR 0x0A]"
        "''Quarto''" NoRoom NoRoom]
    navigation_step [of "\<lparr>collected = NoClue, table = popularTabelaHash,
        stdin = ''x'' @ [CHR 0x0A], stdout = []\<rparr>" "CHR ''x''" "[CHR 0x0A]" "''Quarto''" NoRoom NoRoom]
  by simp

lemma explorar_loop_eof:
  "stdin s = [] \<Longrightarrow> explorar_loop (Room name l r) s = visit_room name s"
  by (simp add: loop_body_eof)

lemma explorar_loop_stop:
  assumes "stdin s = []"
  shows "explorar_loop (Room name l r) (s\<lparr>stdin := [CHR ''s'', CHR 0x0A]\<rparr>)
           = printf Saindo (visit_room name s)"
proof -
  have f: "fgets MAX_INPUT [CHR ''s'', CHR 0x0A] = Some ([CHR ''s'', CHR 0x0A], [])"
    by (simp add: fgets_def MAX_INPUT_def read_line_Cons)
  have t: "trim_newline [CHR ''s'', CHR 0x0A] = [CHR ''s'']"
    by (simp add: trim_newline_def strlen_def)
  have "loop_body name l r (s\<lparr>stdin := [CHR ''s'', CHR 0x0A]\<rparr>)
      = (Break, printf Saindo (visit_room name s))"
    using assms by (simp add: loop_body_def visit_room_eq f t navigate_def strlen_def printf_def)
  then show ?thesis
    by simp
qed

text \<open>
  C9. When the input has ended at the prompt of a room, the exploration loop ends after
  that room's visit, with the ledger collected so far; the session it returns is the one
  that the line \<open>s\<close> gives, but for the leaving message. When the input has ended at the
  accusation prompt, the judgement returns after the prompt with no verdict printed; the
  session is the one that an empty line gives, but for the no-suspect message.
\<close>

theorem end_of_input_is_graceful:
  assumes "stdin s = []"
  shows "explorar_loop (Room name l r) s = visit_room name s
    \<and> collected (explorar_loop (Room name l r) s) = inserirPista (collected s) (clue_of_room name)
    \<and> explorar_loop (Room name l r) (s\<lparr>stdin := [CHR ''s'', CHR 0x0A]\<rparr>)
        = printf Saindo (explorar_loop (Room name l r) s)
    \<and> explorar_loop NoRoom s = s
    \<and> (collected s \<noteq> NoClue \<longrightarrow>
         verificarSuspeitoFinal s =
           s\<lparr>stdout := stdout s @ [PistasColetadas] @ map ItemPista (inorder (collected s))
                @ [DigiteSuspeito]\<rparr>
         \<and> verificarSuspeitoFinal (s\<lparr>stdin := [CHR 0x0A]\<rparr>)
             = printf NenhumSuspeitoInformado (verificarSuspeitoFinal s))"
proof -
  have a: "explorar_loop (Room name l r) s = visit_room name s"
    using assms by (rule explorar_loop_eof)
  have b: "collected (explorar_loop (Room name l r) s) = inserirPista (collected s) (clue_of_room name)"
    unfolding a by (simp add: visit_room_eq)
  have c: "explorar_loop (Room name l r) (s\<lparr>stdin := [CHR ''s'', CHR 0x0A]\<rparr>)
        = printf Saindo (explorar_loop (Room name l r) s)"
    unfolding a using assms by (rule explorar_loop_stop)
  have d: "explorar_loop NoRoom s = s"
    by simp
  have e: "verificarSuspeitoFinal s =
           s\<lparr>stdout := stdout s @ [PistasColetadas] @ map ItemPista (inorder (collected s))
                @ [DigiteSuspeito]\<rparr>" if "collected s \<noteq> NoClue"
    using that assms by (rule verificar_eof)
  have f: "fgets MAX_INPUT [CHR 0x0A] = Some ([CHR 0x0A], [])"
    by (simp add: fgets_def MAX_INPUT_def read_line_Cons)
  have t: "trim_newline [CHR 0x0A] = []"
    by (simp add: trim_newline_def strlen_def)
  have g: "verificarSuspeitoFinal (s\<lparr>stdin := [CHR 0x0A]\<rparr>)
             = printf NenhumSuspeitoInformado (verificarSuspeitoFinal s)" if n: "collected s \<noteq> NoClue"
    using verificar_no_name [of "s\<lparr>stdin := [CHR 0x0A]\<rparr>" "[CHR 0x0A]" "[]"] n f t assms
    by (simp add: e [OF n] printf_def)
  from a b c d e g show ?thesis
    by blast
qed

theorem end_of_input_is_graceful_witness:
  "stdin \<lparr>collected = NoClue, table = popularTabelaHash, stdin = [], stdout = []\<rparr> = []
   \<and> collected (explorar_loop construirMansao
        \<lparr>collected = NoClue, table = popularTabelaHash, stdin = [], stdout = []\<rparr>)
       = ClueNode ''Pegadas lamacentas'' NoClue NoClue
   \<and> stdin \<lparr>collected = ClueNode ''Pegadas lamacentas'' NoClue NoClue, table = popularTabelaHash,
            stdin = [], stdout = []\<rparr> = []
   \<and> verificarSuspeitoFinal
        \<lparr>collected = ClueNode ''Pegadas lamacentas'' NoClue NoClue, table = popularTabelaHash,
         stdin = [], stdout = []\<rparr>
       = \<lparr>collected = ClueNode ''Pegadas lamacentas'' NoClue NoClue, table = popularTabelaHash,
          stdin = [],
          stdout = [PistasColetadas, ItemPista ''Pegadas lamacentas'', DigiteSuspeito]\<rparr>"
proof -
  let ?s = "\<lparr>collected = NoClue, table = popularTabelaHash, stdin = [], stdout = []\<rparr>"
  let ?u = "\<lparr>collected = ClueNode ''Pegadas lamacentas'' NoClue NoClue,
             table = popularTabelaHash, stdin = [], stdout = []\<rparr>"
  have i: "stdin ?s = []" and j: "stdin ?u = []"
    by simp_all
  have m: "construirMansao = Room ''Entrada''
      (Room (''Sal'' @ [CHR 0xC3, CHR 0xA3] @ ''o'')
        (Room ''Biblioteca''
          (Room (''S'' @ [CHR 0xC3, CHR 0xB3] @ ''t'' @ [CHR 0xC3, CHR 0xA3] @ ''o'') NoRoom NoRoom)
          NoRoom)
        (Room (''Escrit'' @ [CHR 0xC3, CHR 0xB3] @ ''rio'') NoRoom
          (Room (''Por'' @ [CHR 0xC3, CHR 0xA3] @ ''o'') NoRoom NoRoom)))
      (Room ''Cozinha'' (Room ''Quarto'' NoRoom NoRoom) (Room ''Varanda'' NoRoom NoRoom))"
    by (simp add: construirMansao_def criarSala_def)
  from end_of_input_is_graceful [OF i]
  have "collected (explorar_loop construirMansao ?s)
      = inserirPista (collected ?s) (clue_of_room ''Entrada'')"
    unfolding m by blast
  then have a: "collected (explorar_loop construirMansao ?s) = ClueNode ''Pegadas lamacentas'' NoClue NoClue"
    by (simp add: clue_of_room_def)
  have "collected ?u \<noteq> NoClue"
    by simp
  with end_of_input_is_graceful [OF j]
  have "verificarSuspeitoFinal ?u =
     ?u\<lparr>stdout := stdout ?u @ [PistasColetadas] @ map ItemPista (inorder (collected ?u))
                @ [DigiteSuspeito]\<rparr>"
    by blast
  then have b: "verificarSuspeitoFinal ?u
       = \<lparr>collected = ClueNode ''Pegadas lamacentas'' NoClue NoClue, table = popularTabelaHash,
          stdin = [],
          stdout = [PistasColetadas, ItemPista ''Pegadas lamacentas'', DigiteSuspeito]\<rparr>"
    by simp
  from i a j b show ?thesis
    by blast
qed

text \<open>
  C10. Every clue that the loop can take from a room is a key of the table that
  \<^verbatim>\<open>popularTabelaHash\<close> builds; the clues of the rooms are exactly the nine keys inserted.
  Whatever the input, exploring the mansion from the empty ledger leaves the table as
  built, and the lookup of every clue of the resulting ledger finds a suspect; the same
  holds of the ledger and table at the end of the whole program.
\<close>

theorem collected_clues_are_indexed:
  "(clue_of_room name = Some c \<longrightarrow> encontrarSuspeito popularTabelaHash (Some c) \<noteq> None)
   \<and> ((\<exists>room. clue_of_room room = Some c) \<longleftrightarrow> c \<in> fst ` set associations)
   \<and> table (explorarSalas construirMansao
        \<lparr>collected = NoClue, table = popularTabelaHash, stdin = input, stdout = []\<rparr>)
       = popularTabelaHash
   \<and> (\<forall>clue \<in> set (inorder (collected (explorarSalas construirMansao
          \<lparr>collected = NoClue, table = popularTabelaHash, stdin = input, stdout = []\<rparr>))).
        encontrarSuspeito
          (table (explorarSalas construirMansao
            \<lparr>collected = NoClue, table = popularTabelaHash, stdin = input, stdout = []\<rparr>))
          (Some clue) \<noteq> None)
   \<and> (\<forall>clue \<in> set (inorder (collected (main_program input))).
        encontrarSuspeito (table (main_program input)) (Some clue) \<noteq> None)"
proof -
  let ?s = "\<lparr>collected = NoClue, table = popularTabelaHash, stdin = input, stdout = []\<rparr>"
  have t: "table (explorarSalas construirMansao ?s) = popularTabelaHash"
    by (simp add: explorarSalas_def printf_def explorar_loop_table)
  have "set (inorder (collected (explorarSalas construirMansao ?s)))
      \<subseteq> {c. \<exists>room. clue_of_room room = Some c}"
    using explorar_loop_collected [of construirMansao "printf InicioExploracao ?s"]
    by (simp add: explorarSalas_def printf_def)
  then have e: "\<forall>clue \<in> set (inorder (collected (explorarSalas construirMansao ?s))).
      encontrarSuspeito popularTabelaHash (Some clue) \<noteq> None"
    using clue_of_room_indexed by blast
  have m: "collected (main_program input) = collected (explorarSalas construirMansao ?s)"
    "table (main_program input) = popularTabelaHash"
    by (simp_all add: main_program_def Let_def printf_def verificar_frame t)
  from e have p: "\<forall>clue \<in> set (inorder (collected (main_program input))).
      encontrarSuspeito (table (main_program input)) (Some clue) \<noteq> None"
    unfolding m .
  from e t p clue_of_room_indexed [of name c] clue_of_room_range [of c] show ?thesis
    by simp
qed

theorem collected_clues_are_indexed_witness:
  "clue_of_room ''Biblioteca'' = Some ''Livro deslocado''
   \<and> encontrarSuspeito popularTabelaHash (Some ''Livro deslocado'') \<noteq> None
   \<and> inorder (collected (explorarSalas construirMansao
        \<lparr>collected = NoClue, table = popularTabelaHash,
         stdin = ''e'' @ [CHR 0x0A] @ ''e'' @ [CHR 0x0A], stdout = []\<rparr>))
       = [''Livro deslocado'', ''Pegadas lamacentas'', ''Vidro quebrado'']
   \<and> encontrarSuspeito
        (table (explorarSalas construirMansao
          \<lparr>collected = NoClue, table = popularTabelaHash,
           stdin = ''e'' @ [CHR 0x0A] @ ''e'' @ [CHR 0x0A], stdout = []\<rparr>))
        (Some ''Vidro quebrado'') \<noteq> None"
proof -
  let ?s = "\<lparr>collected = NoClue, table = popularTabelaHash,
             stdin = ''e'' @ [CHR 0x0A] @ ''e'' @ [CHR 0x0A], stdout = []\<rparr>"
  have r: "clue_of_room ''Biblioteca'' = Some ''Livro deslocado''"
    by (simp add: clue_of_room_def)
  with collected_clues_are_indexed [of "''Biblioteca''" "''Livro deslocado''"]
  have f: "encontrarSuspeito popularTabelaHash (Some ''Livro deslocado'') \<noteq> None"
    by blast
  have v: "inorder (collected (explorarSalas construirMansao ?s))
      = [''Livro deslocado'', ''Pegadas lamacentas'', ''Vidro quebrado'']"
    by (simp add: explorarSalas_def construirMansao_def criarSala_def loop_body_def visit_room_eq
        fgets_def MAX_INPUT_def read_line_Cons trim_newline_def strlen_def navigate_def
        printf_def clue_of_room_def Let_def)
  then have "''Vidro quebrado'' \<in> set (inorder (collected (explorarSalas construirMansao ?s)))"
    by simp
  with collected_clues_are_indexed [of _ _ "''e'' @ [CHR 0x0A] @ ''e'' @ [CHR 0x0A]"]
  have g: "encontrarSuspeito (table (explorarSalas construirMansao ?s)) (Some ''Vidro quebrado'') \<noteq> None"
    by blast
  from r f v g show ?thesis
    by blast
qed

end
